theory Spec2Isabelle
  imports Complex_Main "HOL-Library.Word" "HOL-Library.Log_Nat"
begin

text \<open>
  The request pipeline of \<open>clientx\<close>, a Go library for HTTP API clients: the retry
  controller, its default delay function, the adaptive rate limiter, the attempt loop
  with the circuit breaker, the building of a request, and the call that ties them
  together. What lies outside the program (the network, the clock, the random source, the
  libraries) is a parameter or part of the state of the world, which every operation
  takes and returns. A run returns, next to its result, the list of the events it caused,
  in order.
\<close>

section \<open>Machine integers, durations and instants\<close>

text \<open>
  Go's \<open>int64\<close> and \<open>time.Duration\<close> (an \<open>int64\<close> count of nanoseconds) are
  64-bit words: \<open>+\<close> wraps, and the comparisons of the source are the signed ones
  (\<open>\<le>s\<close>, \<open><s\<close>, read through \<open>sint\<close>). \<open>int\<close> is taken as the 64-bit
  \<open>int\<close> of the usual platforms, so \<open>int(x)\<close> of an \<open>int64\<close> is the identity.
\<close>

type_synonym int64 = "64 word"
type_synonym duration = "64 word"

text \<open>
  A \<open>time.Time\<close> is compared as an instant (\<open>Equal\<close>, \<open>After\<close>); instants are
  integers, counted in nanoseconds from the zero value \<open>time.Time{}\<close>.
\<close>

type_synonym time = int

definition zeroTime :: time where
  "zeroTime = 0"

section \<open>Errors, requests, responses and the outside world\<close>

text \<open>
  An \<open>error\<close> value of Go: the two sentinels of \<open>gobreaker\<close>, the two of
  \<open>context\<close>, any other error by its text, a panic, and \<open>errors.Wrap(err, msg)\<close>,
  which keeps its cause. \<open>errors.Is\<close> walks the chain of causes.
\<close>

type_synonym byte = "8 word"
type_synonym header = "string \<rightharpoonup> string list"

datatype error =
    ErrOpenState
  | ErrTooManyRequests
  | Canceled
  | DeadlineExceeded
  | ErrorString string
  | Panic string
  | Wrap error string

fun errors_Is :: "error \<Rightarrow> error \<Rightarrow> bool" where
  "errors_Is (Wrap cause msg) target = (Wrap cause msg = target \<or> errors_Is cause target)"
| "errors_Is err target = (err = target)"

record url =
  Scheme :: string
  Host :: string
  Path :: string
  RawPath :: string
  RawQuery :: string
  Fragment :: string

text \<open>
  The body of a request is a reader, an object that is used up as it is read: \<open>Body\<close>
  holds the address of the reader (\<open>None\<close> for \<open>nil\<close>), and the world maps each
  address to the bytes not yet read from it.
\<close>

record request =
  Method :: string
  URL :: url
  Header :: header
  Body :: "nat option"

record response =
  StatusCode :: int
  RespHeader :: header
  RespBody :: "byte list"

text \<open>
  The world: the state \<open>ext\<close> of everything outside the program (the network, the
  breaker's counters, the limiter's tokens, the clock, the random source), and the
  readers with the next free address.
\<close>

record 'x world =
  ext :: 'x
  readers :: "nat \<Rightarrow> byte list"
  nextReader :: nat

text \<open>
  What a run does, in order: the limiter is asked for admission; the breaker is asked
  whether a request may go, with its answer (the error with which it refuses, or none);
  the transport is handed a request, with the bytes it reads from the body; a response is
  dumped to standard output; an attempt returns its pair; the call sleeps; the response
  reader is closed.
\<close>

datatype event =
    EvRateWait
  | EvBreaker "error option"
  | EvTransport request "byte list"
  | EvDump response
  | EvAttempt "response option" "error option"
  | EvSleep duration
  | EvClose

definition newReader :: "byte list \<Rightarrow> 'x world \<Rightarrow> nat \<times> 'x world" where
  "newReader bs w =
     (nextReader w, w\<lparr>readers := (readers w)(nextReader w := bs), nextReader := nextReader w + 1\<rparr>)"

definition readAll :: "nat \<Rightarrow> 'x world \<Rightarrow> byte list \<times> 'x world" where
  "readAll a w = (readers w a, w\<lparr>readers := (readers w)(a := [])\<rparr>)"

section \<open>The retry controller (\<open>backoff\<close>)\<close>

text \<open>
  \<open>RetryFunc\<close> is \<open>func(n int, min, max time.Duration) time.Duration\<close>. The
  default one reads the clock and a random source, so a delay function also takes and
  returns the state \<open>'x\<close> of the outside world. The field \<open>f\<close> of the source is
  \<open>retryFunc\<close> here. The atomic operations on \<open>attempts\<close> are single steps of the
  sequential model.
\<close>

record 'x backoff =
  minWaitTime :: duration
  maxWaitTime :: duration
  maxAttempts :: int64
  attempts :: int64
  retryFunc :: "int64 \<Rightarrow> duration \<Rightarrow> duration \<Rightarrow> 'x \<Rightarrow> duration \<times> 'x"

definition stopBackoff :: duration where
  "stopBackoff = - 1"

definition Next :: "'x backoff \<Rightarrow> 'x \<Rightarrow> duration \<times> 'x backoff \<times> 'x" where
  "Next b x =
     (if maxAttempts b \<le>s attempts b then (stopBackoff, b, x)
      else
        let b' = b\<lparr>attempts := attempts b + 1\<rparr>;
            (d, x') = retryFunc b' (attempts b') (minWaitTime b') (maxWaitTime b') x
        in (d, b', x'))"

definition Reset :: "'x backoff \<Rightarrow> int64 \<times> 'x backoff" where
  "Reset b = (attempts b, b\<lparr>attempts := 0\<rparr>)"

definition Attempt :: "'x backoff \<Rightarrow> int64" where
  "Attempt b = attempts b"

text \<open>\<open>k\<close> calls of \<open>Next\<close> in a row, the delays dropped.\<close>

fun NextTimes :: "nat \<Rightarrow> 'x backoff \<Rightarrow> 'x \<Rightarrow> 'x backoff \<times> 'x" where
  "NextTimes 0 b x = (b, x)"
| "NextTimes (Suc k) b x = (case Next b x of (d, b', x') \<Rightarrow> NextTimes k b' x')"

section \<open>The default delay function (\<open>ExponentalBackoff\<close>)\<close>

text \<open>
  The source computes in \<open>float64\<close> and converts to \<open>time.Duration\<close>:
  \<^verbatim>\<open>
  delay  := time.Duration(math.Pow(factor, float64(attemptNum)) * float64(min))
  jitter := time.Duration(rnd.Float64() * float64(min) * float64(attemptNum))
  delay = delay + jitter
  if delay > max { delay = max }
  \<close>
  A value of \<open>float64\<close> is a finite one, given by the rational it denotes, an infinity
  or a NaN. The sign of a zero is dropped: no conversion to an integer shows it.
\<close>

datatype f64 = Finite rat | PosInf | NegInf | NaN

text \<open>
  A conversion to \<open>float64\<close> and a product of two \<open>float64\<close> round the exact
  result to the nearest value with a significand of 53 bits, a tie going to the even
  significand (IEEE 754, round to nearest even). \<open>ilog2 a\<close> is the integer part of
  the binary logarithm of \<open>a > 0\<close>, found from the bit lengths of numerator and
  denominator; \<open>ulpExp a\<close> is the exponent of the unit in the last place at the
  magnitude \<open>a\<close>, which is \<open>-1074\<close> for the subnormal values. A result whose
  rounded magnitude reaches \<open>2^1024\<close> is infinite.
\<close>

definition ilog2 :: "rat \<Rightarrow> int" where
  "ilog2 x =
     (case quotient_of x of
        (p, q) \<Rightarrow> let d = bitlen p - bitlen q in if power_int 2 d \<le> x then d else d - 1)"

definition roundHalfEven :: "rat \<Rightarrow> int" where
  "roundHalfEven y =
     (let f = \<lfloor>y\<rfloor>; d = y - of_int f
      in if d < 1 / 2 then f else if 1 / 2 < d then f + 1 else if even f then f else f + 1)"

definition ulpExp :: "rat \<Rightarrow> int" where
  "ulpExp a = max (ilog2 a - 52) (- 1074)"

definition overflowThreshold :: rat where
  "overflowThreshold = 2 ^ 1024"

definition roundFloat64 :: "rat \<Rightarrow> f64" where
  "roundFloat64 x =
     (if x = 0 then Finite 0
      else let e = ulpExp \<bar>x\<bar>;
               y = of_int (roundHalfEven (\<bar>x\<bar> / power_int 2 e)) * power_int 2 e
           in if overflowThreshold \<le> y then (if 0 < x then PosInf else NegInf)
              else Finite (sgn x * y))"

text \<open>
  The product of two \<open>float64\<close>: a NaN gives a NaN, an infinity times a zero is a
  NaN, an infinity times anything else is the infinity of the product's sign.
\<close>

fun isNeg :: "f64 \<Rightarrow> bool" where
  "isNeg (Finite q) = (q < 0)"
| "isNeg NegInf = True"
| "isNeg v = False"

fun fmul :: "f64 \<Rightarrow> f64 \<Rightarrow> f64" where
  "fmul (Finite p) (Finite q) = roundFloat64 (p * q)"
| "fmul NaN b = NaN"
| "fmul a NaN = NaN"
| "fmul a b =
     (if a = Finite 0 \<or> b = Finite 0 then NaN
      else if isNeg a = isNeg b then PosInf else NegInf)"

text \<open>\<open>float64(k)\<close> of an \<open>int64\<close> or \<open>int\<close>.\<close>

definition float64 :: "int64 \<Rightarrow> f64" where
  "float64 k = roundFloat64 (of_int (sint k))"

text \<open>
  \<open>math.Pow(2.0, float64(n))\<close>: a power of two is a \<open>float64\<close> as it stands, down
  to \<open>2^-1074\<close>; the result is infinite above \<open>2^1023\<close> and zero below
  \<open>2^-1074\<close>. Where \<open>float64(n)\<close> rounds \<open>n\<close>, both are far outside that range.
\<close>

definition pow2 :: "int \<Rightarrow> f64" where
  "pow2 n =
     (if 1023 < n then PosInf
      else if n < - 1074 then Finite 0
      else Finite (power_int 2 n))"

text \<open>
  The conversion \<open>time.Duration(f)\<close> truncates towards zero. For a value that does not
  fit 64 bits, and for an infinity or a NaN, Go leaves the result to the implementation,
  which is the parameter \<open>oor\<close>.
\<close>

definition truncRat :: "rat \<Rightarrow> int" where
  "truncRat q = (if 0 \<le> q then \<lfloor>q\<rfloor> else \<lceil>q\<rceil>)"

definition toDuration :: "(f64 \<Rightarrow> duration) \<Rightarrow> f64 \<Rightarrow> duration" where
  "toDuration oor v =
     (case v of
        Finite q \<Rightarrow>
          if - (2 ^ 63) \<le> truncRat q \<and> truncRat q < 2 ^ 63 then word_of_int (truncRat q)
          else oor v
      | _ \<Rightarrow> oor v)"

text \<open>
  The value of \<open>delay\<close> before the clamp, after \<open>delay = delay + jitter\<close>. The draw
  \<open>rnd.Float64()\<close>, a \<open>float64\<close> in \<open>[0, 1)\<close>, is the parameter \<open>rnd\<close>. The
  addition and the comparison are those of \<open>int64\<close>.
\<close>

definition backoffDelay :: "(f64 \<Rightarrow> duration) \<Rightarrow> rat \<Rightarrow> int64 \<Rightarrow> duration \<Rightarrow> duration" where
  "backoffDelay oor rnd attemptNum mn =
     (let delay = toDuration oor (fmul (pow2 (sint attemptNum)) (float64 mn));
          jitter = toDuration oor (fmul (fmul (Finite rnd) (float64 mn)) (float64 attemptNum))
      in delay + jitter)"

definition ExponentalBackoff ::
  "(f64 \<Rightarrow> duration) \<Rightarrow> rat \<Rightarrow> int64 \<Rightarrow> duration \<Rightarrow> duration \<Rightarrow> duration" where
  "ExponentalBackoff oor rnd attemptNum mn mx =
     (let delay = backoffDelay oor rnd attemptNum mn
      in if mx <s delay then mx else delay)"

section \<open>The adaptive rate limiter (\<open>adaptiveBucketLimiter\<close>)\<close>

text \<open>
  \<open>rate.Limiter\<close> comes from \<open>golang.org/x/time/rate\<close>; of its state the two
  settings that the limiter's callbacks change are kept, its token accounting belongs to
  the outside world. The callbacks queued in \<open>nextResetEvents\<close> are closures built in
  two places only, \<open>SetBurstAt\<close> and \<open>SetLimitAt\<close>; \<open>resetEvent\<close> names the two
  and \<open>runEvent\<close> runs one. The field \<open>r\<close> of the source is \<open>limiter_r\<close>, and the
  mutex has no part in a sequential run. \<open>time.Now()\<close> is the parameter \<open>now\<close>,
  which \<open>Wait\<close> reads from the world; \<open>l.r.Wait(ctx)\<close> is the library's \<open>rateWait\<close>.
\<close>

record 'l rateLimiter =
  limit :: 'l
  burst :: int

datatype 'l resetEvent = SetBurst int | SetLimit 'l

fun runEvent :: "'l resetEvent \<Rightarrow> 'l rateLimiter \<Rightarrow> 'l rateLimiter" where
  "runEvent (SetBurst b) rl = rl\<lparr>burst := b\<rparr>"
| "runEvent (SetLimit v) rl = rl\<lparr>limit := v\<rparr>"

record 'l adaptiveBucketLimiter =
  limiter_r :: "'l rateLimiter"
  nextResetAt :: time
  nextResetEvents :: "'l resetEvent list"

definition newAdaptiveBucketLimiter :: "'l \<Rightarrow> int \<Rightarrow> 'l adaptiveBucketLimiter" where
  "newAdaptiveBucketLimiter lm b =
     \<lparr>limiter_r = \<lparr>limit = lm, burst = b\<rparr>, nextResetAt = zeroTime, nextResetEvents = []\<rparr>"

definition tryReset :: "time \<Rightarrow> 'l adaptiveBucketLimiter \<Rightarrow> bool" where
  "tryReset now l = (nextResetAt l = now \<or> now < nextResetAt l)"

text \<open>The locked section of \<open>Wait\<close>, before it calls \<open>l.r.Wait(ctx)\<close>.\<close>

definition resetIfDue :: "time \<Rightarrow> 'l adaptiveBucketLimiter \<Rightarrow> 'l adaptiveBucketLimiter" where
  "resetIfDue now l =
     (if tryReset now l
      then l\<lparr>limiter_r := fold runEvent (nextResetEvents l) (limiter_r l),
             nextResetAt := zeroTime,
             nextResetEvents := []\<rparr>
      else l)"

definition validateResetAt :: "time \<Rightarrow> time \<Rightarrow> time" where
  "validateResetAt now t = (if t = zeroTime then now else t)"

definition insertEvent ::
  "time \<Rightarrow> 'l resetEvent \<Rightarrow> 'l adaptiveBucketLimiter \<Rightarrow> 'l adaptiveBucketLimiter" where
  "insertEvent t ev l = l\<lparr>nextResetAt := t, nextResetEvents := nextResetEvents l @ [ev]\<rparr>"

definition SetBurstAt ::
  "time \<Rightarrow> time \<Rightarrow> int \<Rightarrow> 'l adaptiveBucketLimiter \<Rightarrow> 'l adaptiveBucketLimiter" where
  "SetBurstAt now t b l = insertEvent (validateResetAt now t) (SetBurst b) l"

definition SetLimitAt ::
  "time \<Rightarrow> time \<Rightarrow> 'l \<Rightarrow> 'l adaptiveBucketLimiter \<Rightarrow> 'l adaptiveBucketLimiter" where
  "SetLimitAt now t v l = insertEvent (validateResetAt now t) (SetLimit v) l"

section \<open>The client and the libraries it calls\<close>

text \<open>
  \<open>gobreaker.CircuitBreaker\<close> is a library outside the repository. \<open>Execute\<close> first
  asks \<open>beforeRequest\<close>, which refuses with \<open>ErrOpenState\<close> or
  \<open>ErrTooManyRequests\<close> without running the action; otherwise it runs the action and
  reports its success to \<open>afterRequest\<close>. The two decisions are parameters.
\<close>

record 'x gobreaker =
  beforeRequest :: "'x \<Rightarrow> error option \<times> 'x"
  afterRequest :: "bool \<Rightarrow> 'x \<Rightarrow> 'x"

record 'x CircuitBreaker =
  Breaker :: "'x gobreaker option"

type_synonym RetryCond = "response option \<Rightarrow> error option \<Rightarrow> bool"

text \<open>
  Of \<open>Options\<close> the fields that the pipeline reads; \<open>Conditions\<close> is
  \<open>Retry.Conditions\<close> (\<open>NewAPI\<close> sets \<open>retry\<close> exactly when \<open>Retry\<close> is set).
\<close>

record Options =
  BaseURL :: string
  Headers :: header
  Debug :: bool
  Conditions :: "RetryCond list"

record ('x, 'l) API =
  httpClient :: "request \<Rightarrow> byte list \<Rightarrow> 'x \<Rightarrow> (error + response) \<times> 'x"
  options :: Options
  retry :: "'x backoff option"
  limiter :: "'l adaptiveBucketLimiter"
  breaker :: "'x CircuitBreaker option"

text \<open>
  Functions of the standard library and of \<open>golang.org/x/time/rate\<close> that the pipeline
  calls: \<open>url.Parse\<close>, \<open>URL.String\<close>, \<open>http.NewRequestWithContext\<close>,
  \<open>httputil.DumpResponse\<close> (its error only), \<open>time.Now\<close> and \<open>rate.Limiter.Wait\<close>.
\<close>

record ('x, 'l) stdlib =
  urlParse :: "string \<Rightarrow> error + url"
  urlString :: "url \<Rightarrow> string"
  newRequest :: "string \<Rightarrow> string \<Rightarrow> error + request"
  dumpResponse :: "response \<Rightarrow> error option"
  timeNow :: "'x \<Rightarrow> time"
  rateWait :: "'l rateLimiter \<Rightarrow> 'x \<Rightarrow> error option \<times> 'x"

text \<open>\<open>adaptiveBucketLimiter.Wait\<close>: the locked section, then the wait of \<open>rate.Limiter\<close>.\<close>

definition Wait ::
  "('x, 'l) stdlib \<Rightarrow> 'l adaptiveBucketLimiter \<Rightarrow> 'x world
     \<Rightarrow> error option \<times> 'l adaptiveBucketLimiter \<times> 'x world" where
  "Wait lib l w =
     (let l1 = resetIfDue (timeNow lib (ext w)) l;
          (err, x) = rateWait lib (limiter_r l1) (ext w)
      in (err, l1, w\<lparr>ext := x\<rparr>))"

section \<open>One attempt and the attempt loop (\<open>performRequest\<close>)\<close>

text \<open>
  The first lines of the closure \<open>do\<close>:
  \<^verbatim>\<open>
  if reuse && req.Body != nil {
  var b bytes.Buffer
  b.ReadFrom(req.Body)
  req.Body = io.NopCloser(&b)
  cloneReq := req.Clone(ctx)
  cloneReq.Body = io.NopCloser(bytes.NewReader(b.Bytes()))
  req = cloneReq }
  \<close>
  The caller's request is changed in place, so the result holds it next to the clone that
  is sent. An error of \<open>ReadFrom\<close> is dropped by the source: the bytes of a reader are
  those it delivers before it fails.
\<close>

definition rehydrate :: "bool \<Rightarrow> request \<Rightarrow> 'x world \<Rightarrow> request \<times> request \<times> 'x world" where
  "rehydrate reuse req w =
     (case Body req of
        None \<Rightarrow> (req, req, w)
      | Some a \<Rightarrow>
          if reuse
          then let (bs, w1) = readAll a w;
                   (b, w2) = newReader bs w1;
                   req1 = req\<lparr>Body := Some b\<rparr>;
                   (rd, w3) = newReader bs w2;
                   cloneReq = req1\<lparr>Body := Some rd\<rparr>
               in (req1, cloneReq, w3)
          else (req, req, w))"

text \<open>\<open>c.api.httpClient.Do(req)\<close>: the transport reads the body to its end.\<close>

definition transport ::
  "('x, 'l) API \<Rightarrow> request \<Rightarrow> 'x world \<Rightarrow> (error + response) \<times> 'x world \<times> event list" where
  "transport api req w =
     (let (bs, w1) = (case Body req of None \<Rightarrow> ([], w) | Some a \<Rightarrow> readAll a w);
          (res, x) = httpClient api req bs (ext w1)
      in (res, w1\<lparr>ext := x\<rparr>, [EvTransport req bs]))"

definition Execute ::
  "'x gobreaker \<Rightarrow> ('x world \<Rightarrow> (error + response) \<times> 'x world \<times> event list)
     \<Rightarrow> 'x world \<Rightarrow> (error + response) \<times> 'x world \<times> event list" where
  "Execute cb action w =
     (case beforeRequest cb (ext w) of
        (Some err, x) \<Rightarrow> (Inl err, w\<lparr>ext := x\<rparr>, [EvBreaker (Some err)])
      | (None, x) \<Rightarrow>
          (case action (w\<lparr>ext := x\<rparr>) of
             (res, w1, evs) \<Rightarrow>
               (res, w1\<lparr>ext := afterRequest cb (\<not> isl res) (ext w1)\<rparr>, EvBreaker None # evs)))"

text \<open>\<open>c.api.breaker == nil || c.api.breaker.Breaker == nil\<close> is \<open>activeBreaker api = None\<close>.\<close>

definition activeBreaker :: "('x, 'l) API \<Rightarrow> 'x gobreaker option" where
  "activeBreaker api = (case breaker api of None \<Rightarrow> None | Some cb \<Rightarrow> Breaker cb)"

definition classify :: "error \<Rightarrow> error" where
  "classify err =
     (if errors_Is err ErrOpenState \<or> errors_Is err ErrTooManyRequests
      then Wrap err ''circuit-breaker has worked''
      else err)"

text \<open>The test by which a caller recognises a refusal of the breaker.\<close>

definition isBreakerOpenError :: "error \<Rightarrow> bool" where
  "isBreakerOpenError err = (errors_Is err ErrOpenState \<or> errors_Is err ErrTooManyRequests)"

text \<open>
  The closure \<open>do\<close> of \<open>performRequest\<close>, in its three parts. \<open>roundTrip\<close>
  is the call of the transport, direct or through the breaker, with the classification
  of its error: without a breaker an error of the transport is returned as it is; with
  one, every error goes through \<open>classify\<close>. \<open>debugDump\<close> is the dump of the
  response when \<open>Debug\<close> is set, which can fail. Its second result is what it prints.
\<close>

definition roundTrip ::
  "('x, 'l) API \<Rightarrow> request \<Rightarrow> 'x world \<Rightarrow> (error + response) \<times> 'x world \<times> event list" where
  "roundTrip api req w =
     (case activeBreaker api of
        None \<Rightarrow> transport api req w
      | Some cb \<Rightarrow>
          (case Execute cb (transport api req) w of
             (Inl err, w1, evs) \<Rightarrow> (Inl (classify err), w1, evs)
           | (Inr resp, w1, evs) \<Rightarrow> (Inr resp, w1, evs)))"

definition debugDump ::
  "('x, 'l) stdlib \<Rightarrow> ('x, 'l) API \<Rightarrow> error + response
     \<Rightarrow> (response option \<times> error option) \<times> event list" where
  "debugDump lib api res =
     (case res of
        Inl err \<Rightarrow> ((None, Some err), [])
      | Inr resp \<Rightarrow>
          if Debug (options api)
          then (case dumpResponse lib resp of
                  Some err \<Rightarrow> ((None, Some err), [])
                | None \<Rightarrow> ((Some resp, None), [EvDump resp]))
          else ((Some resp, None), []))"

definition doAttempt ::
  "('x, 'l) stdlib \<Rightarrow> ('x, 'l) API \<Rightarrow> request \<Rightarrow> bool \<Rightarrow> 'x world
     \<Rightarrow> (response option \<times> error option) \<times> request \<times> 'x world \<times> event list" where
  "doAttempt lib api req reuse w =
     (let (req1, sendReq, w1) = rehydrate reuse req w;
          (res, w2, evs) = roundTrip api sendReq w1;
          (out, dump) = debugDump lib api res
      in (out, req1, w2, evs @ dump @ [EvAttempt (fst out) (snd out)]))"

definition isMatchedCond :: "RetryCond list \<Rightarrow> response option \<times> error option \<Rightarrow> bool" where
  "isMatchedCond conds res = list_ex (\<lambda>cond. cond (fst res) (snd res)) conds"

text \<open>
  The \<open>for\<close> loop of \<open>performRequest\<close>. Each turn that goes on has moved the counter
  one step towards the maximum, which bounds the number of turns.
\<close>

function retryLoop ::
  "('x, 'l) stdlib \<Rightarrow> ('x, 'l) API \<Rightarrow> 'x backoff \<Rightarrow> request \<Rightarrow> 'x world
     \<Rightarrow> (response option \<times> error option) \<times> request \<times> 'x backoff \<times> 'x world \<times> event list" where
  "retryLoop lib api b req w =
     (case doAttempt lib api req True w of
        (res, req1, w1, evs1) \<Rightarrow>
          if isMatchedCond (Conditions (options api)) res
          then (case Next b (ext w1) of
                  (nextDuration, b1, x1) \<Rightarrow>
                    if nextDuration = stopBackoff
                    then (res, req1, snd (Reset b1), w1\<lparr>ext := x1\<rparr>, evs1)
                    else (case retryLoop lib api b1 req1 (w1\<lparr>ext := x1\<rparr>) of
                            (res', req', b', w', evs') \<Rightarrow>
                              (res', req', b', w', evs1 @ EvSleep nextDuration # evs')))
          else (res, req1, b, w1, evs1))"
  by pat_completeness auto
termination
proof (relation "measure (\<lambda>(lib, api, b, req, w). nat (sint (maxAttempts b) - sint (attempts b)))")
  show "wf (measure (\<lambda>(lib :: ('x, 'l) stdlib, api :: ('x, 'l) API, b :: 'x backoff, req :: request,
      w :: 'x world). nat (sint (maxAttempts b) - sint (attempts b))))"
    by simp
next
  fix lib :: "('x, 'l) stdlib" and api :: "('x, 'l) API" and b b1 :: "'x backoff"
    and req req1 :: request and w w1 :: "'x world"
    and nextDuration :: duration and x1 :: 'x and rest :: "'x backoff \<times> 'x"
  assume nxt: "(nextDuration, rest) = Next b (ext w1)" and r: "(b1, x1) = rest"
    and go: "nextDuration \<noteq> stopBackoff"
  have n: "Next b (ext w1) = (nextDuration, b1, x1)" using nxt r by simp
  have below: "\<not> maxAttempts b \<le>s attempts b"
    using n go by (auto simp: Next_def)
  then have lt: "sint (attempts b) < sint (maxAttempts b)" by (simp add: word_sle_eq)
  have b1: "b1 = b\<lparr>attempts := attempts b + 1\<rparr>"
    using n below by (auto simp: Next_def Let_def split: prod.splits)
  have "sint (maxAttempts b) < 2 ^ 63" using sint_lt [of "maxAttempts b"] by simp
  moreover have "- (2 ^ 63) \<le> sint (attempts b)" using sint_ge [of "attempts b"] by simp
  ultimately have "- (2 ^ 63) \<le> sint (attempts b) + 1" and "sint (attempts b) + 1 < 2 ^ 63"
    using lt by linarith+
  then have "sint (attempts b + 1) = sint (attempts b) + 1"
    by (simp add: sint_word_ariths signed_take_bit_int_eq_self)
  then show "((lib, api, b1, req1, w1\<lparr>ext := x1\<rparr>), lib, api, b, req, w)
      \<in> measure (\<lambda>(lib, api, b, req, w). nat (sint (maxAttempts b) - sint (attempts b)))"
    using lt by (simp add: b1)
qed

definition performRequest ::
  "('x, 'l) stdlib \<Rightarrow> ('x, 'l) API \<Rightarrow> request \<Rightarrow> 'x world
     \<Rightarrow> (response option \<times> error option) \<times> ('x, 'l) API \<times> 'x world \<times> event list" where
  "performRequest lib api httpReq w =
     (case retry api of
        None \<Rightarrow>
          (case doAttempt lib api httpReq False w of
             (res, req1, w1, evs) \<Rightarrow> (res, api, w1, evs))
      | Some b \<Rightarrow>
          (case retryLoop lib api b httpReq w of
             (res, req1, b1, w1, evs) \<Rightarrow> (res, api\<lparr>retry := Some b1\<rparr>, w1, evs)))"

section \<open>Building the request and the whole call (\<open>makeRequest\<close>, \<open>do\<close>)\<close>

text \<open>
  A \<open>RequestOption\<close> is \<open>func(req *http.Request) error\<close>: it changes the request
  or fails, and it may create a reader. \<open>WithRequestForm\<close> takes the bytes of
  \<open>form.Encode()\<close>. The options are modelled as functions of the request they are
  given: an option of the caller's own that wrote into the header map in place would also
  change the client's default headers, which share that map.
\<close>

type_synonym 'x RequestOption = "request \<Rightarrow> 'x world \<Rightarrow> (error + request) \<times> 'x world"


definition WithRequestForm :: "byte list \<Rightarrow> 'x RequestOption" where
  "WithRequestForm encoded req w =
     (case newReader encoded w of (rd, w1) \<Rightarrow> (Inr (req\<lparr>Body := Some rd\<rparr>), w1))"

text \<open>
  Modelled from the spec: the interface \<open>EncoderDecoder\<close> is declared in a file that
  is not among the sources. The specification gives the codec as
  \<open>encode(payload) -> byte stream\<close> and \<open>decode(byte stream) -> payload\<close>, each of
  which can fail.
\<close>

record ('q, 'd) EncoderDecoder =
  Encode :: "'q \<Rightarrow> error + byte list"
  Decode :: "byte list \<Rightarrow> error + 'd"

text \<open>
  Modelled from the spec: the struct \<open>RequestBuilder\<close> is declared in a file that is
  not among the sources; these are the fields that \<open>makeRequest\<close> and \<open>do\<close> read
  (the call descriptor of the specification: method, resource path, request payload or
  none, request options, optional error-sniffing hook). The fields \<open>method\<close> and
  \<open>body\<close> are \<open>reqMethod\<close> and \<open>reqBody\<close> here.
\<close>

record ('x, 'q) RequestBuilder =
  reqMethod :: string
  resourcePath :: string
  reqBody :: "'q option"
  requestOptions :: "'x RequestOption list"
  errDecodeFn :: "(response \<Rightarrow> bool \<times> error option) option"

text \<open>
  The struct \<open>client\<close>; its field \<open>api\<close> is \<open>client_api\<close> here, and
  \<open>zeroResp\<close> is the zero value of the type \<open>Resp\<close> (\<open>var data Resp\<close>).
\<close>

record ('x, 'l, 'd) client =
  client_api :: "('x, 'l) API"
  afterResponse :: "(response \<Rightarrow> 'd \<Rightarrow> error + 'd) list"
  zeroResp :: 'd

definition buildRequestURL :: "('x, 'l) stdlib \<Rightarrow> ('x, 'l) API \<Rightarrow> string \<Rightarrow> error + url" where
  "buildRequestURL lib api resource =
     (case urlParse lib (BaseURL (options api)) of
        Inl err \<Rightarrow> Inl err
      | Inr u \<Rightarrow> Inr (u\<lparr>Path := resource\<rparr>))"

text \<open>
  \<open>makeRequest\<close> hands \<open>u.String()\<close> to \<open>http.NewRequestWithContext\<close>, which
  parses it again. \<open>URL.String\<close> of \<open>net/url\<close> writes a \<open>/\<close> in front of a path
  that is not empty and does not begin with one when the URL has a host
  (\<open>path != "" && path[0] != '/' && u.Host != ""\<close>): \<open>sentPath u\<close> is the path
  that the string form of \<open>u\<close> carries.
\<close>

definition sentPath :: "url \<Rightarrow> string" where
  "sentPath u =
     (if Path u \<noteq> [] \<and> hd (Path u) \<noteq> CHR ''/'' \<and> Host u \<noteq> [] then CHR ''/'' # Path u
      else Path u)"

text \<open>
  Modelled from the spec: the method \<open>encodeRequestPayload\<close> is defined in a file that
  is not among the sources. The specification has the payload encoded through the
  configured codec into the body of the request: a new reader over the encoded bytes.
\<close>

definition encodeRequestPayload ::
  "('q, 'd) EncoderDecoder \<Rightarrow> 'q \<Rightarrow> 'x world \<Rightarrow> (error + nat) \<times> 'x world" where
  "encodeRequestPayload enc payload w =
     (case Encode enc payload of
        Inl err \<Rightarrow> (Inl err, w)
      | Inr bs \<Rightarrow> (case newReader bs w of (rd, w1) \<Rightarrow> (Inr rd, w1)))"

fun applyOptions :: "'x RequestOption list \<Rightarrow> request \<Rightarrow> 'x world \<Rightarrow> (error + request) \<times> 'x world" where
  "applyOptions [] req w = (Inr req, w)"
| "applyOptions (opt # opts) req w =
     (case opt req w of
        (Inl err, w1) \<Rightarrow> (Inl err, w1)
      | (Inr req1, w1) \<Rightarrow> applyOptions opts req1 w1)"

text \<open>
  The three steps of \<open>makeRequest\<close> after the request is created: the payload
  (\<open>req.method != http.MethodGet && req.body != nil && enc != nil\<close>), the default
  headers (\<open>len(c.api.options.Headers) != 0\<close>), and the options in their order, the
  first failure ending the call.
\<close>

definition setPayload ::
  "('x, 'q) RequestBuilder \<Rightarrow> ('q, 'd) EncoderDecoder option \<Rightarrow> request \<Rightarrow> 'x world
     \<Rightarrow> (error + request) \<times> 'x world" where
  "setPayload rb enc httpReq w =
     (case (reqBody rb, enc) of
        (Some payload, Some e) \<Rightarrow>
          if reqMethod rb \<noteq> ''GET''
          then (case encodeRequestPayload e payload w of
                  (Inl err, w1) \<Rightarrow> (Inl err, w1)
                | (Inr rd, w1) \<Rightarrow> (Inr (httpReq\<lparr>Body := Some rd\<rparr>), w1))
          else (Inr httpReq, w)
      | _ \<Rightarrow> (Inr httpReq, w))"

definition setDefaultHeaders :: "('x, 'l) API \<Rightarrow> request \<Rightarrow> request" where
  "setDefaultHeaders api httpReq =
     (if Headers (options api) \<noteq> Map.empty
      then httpReq\<lparr>Header := Headers (options api)\<rparr>
      else httpReq)"

definition makeRequest ::
  "('x, 'l) stdlib \<Rightarrow> ('x, 'l) API \<Rightarrow> ('x, 'q) RequestBuilder \<Rightarrow> ('q, 'd) EncoderDecoder option
     \<Rightarrow> 'x world \<Rightarrow> (error + request) \<times> 'x world" where
  "makeRequest lib api rb enc w =
     (case buildRequestURL lib api (resourcePath rb) of
        Inl err \<Rightarrow> (Inl err, w)
      | Inr u \<Rightarrow>
          (case newRequest lib (reqMethod rb) (urlString lib u) of
             Inl err \<Rightarrow> (Inl err, w)
           | Inr httpReq \<Rightarrow>
               (case setPayload rb enc httpReq w of
                  (Inl err, w1) \<Rightarrow> (Inl err, w1)
                | (Inr httpReq1, w1) \<Rightarrow>
                    applyOptions (requestOptions rb) (setDefaultHeaders api httpReq1) w1)))"

text \<open>
  Modelled from the spec: \<open>decodeResponse\<close> is defined in a file that is not among the
  sources. The specification has the body of the response decoded through the codec into
  the payload, a failure ending the call.
\<close>

definition decodeResponse :: "('q, 'd) EncoderDecoder \<Rightarrow> byte list \<Rightarrow> error + 'd" where
  "decodeResponse enc r = Decode enc r"

fun runAfterResponse :: "(response \<Rightarrow> 'd \<Rightarrow> error + 'd) list \<Rightarrow> response \<Rightarrow> 'd \<Rightarrow> error + 'd" where
  "runAfterResponse [] resp data = Inr data"
| "runAfterResponse (after # hooks) resp data =
     (case after resp data of
        Inl err \<Rightarrow> Inl (Wrap err ''after response exec failed'')
      | Inr data1 \<Rightarrow> runAfterResponse hooks resp data1)"

text \<open>
  The lines of \<open>do\<close> after the response reader is open: the error-sniffing hook, the
  decoding, and the hooks after the response.
\<close>

definition handleResponse ::
  "('x, 'l, 'd) client \<Rightarrow> ('x, 'q) RequestBuilder \<Rightarrow> bool \<Rightarrow> ('q, 'd) EncoderDecoder option
     \<Rightarrow> response \<Rightarrow> byte list \<Rightarrow> response option \<times> 'd option \<times> error option" where
  "handleResponse c rb decode enc resp r =
     (case (case errDecodeFn rb of
              None \<Rightarrow> None
            | Some fn \<Rightarrow> (case fn resp of (ok, err) \<Rightarrow> if ok then Some err else None)) of
        Some err \<Rightarrow> (Some resp, None, err)
      | None \<Rightarrow>
          (case (case enc of
                   Some e \<Rightarrow> if decode then decodeResponse e r else Inr (zeroResp c)
                 | None \<Rightarrow> Inr (zeroResp c)) of
             Inl err \<Rightarrow> (None, None, Some err)
           | Inr data \<Rightarrow>
               (case runAfterResponse (afterResponse c) resp data of
                  Inl err \<Rightarrow> (None, None, Some err)
                | Inr data1 \<Rightarrow> (Some resp, Some data1, None))))"

text \<open>
  \<open>client.do\<close>. \<open>responseReader\<close> is a function of the repository whose file is not
  among the sources; it is a parameter, giving the bytes of the body or an error. A
  response that is \<open>nil\<close> next to a \<open>nil\<close> error, which an attempt never returns,
  would make \<open>responseReader\<close> panic. The deferred \<open>r.Close()\<close> is the last event
  of a run that opened the reader.
\<close>

definition do ::
  "('x, 'l) stdlib \<Rightarrow> (response \<Rightarrow> error + byte list) \<Rightarrow> ('x, 'l, 'd) client
     \<Rightarrow> ('x, 'q) RequestBuilder \<Rightarrow> bool \<Rightarrow> ('q, 'd) EncoderDecoder option \<Rightarrow> 'x world
     \<Rightarrow> (response option \<times> 'd option \<times> error option) \<times> ('x, 'l, 'd) client \<times> 'x world
        \<times> event list" where
  "do lib responseReader c rb decode enc w =
     (case Wait lib (limiter (client_api c)) w of
        (Some err, l1, w1) \<Rightarrow>
          ((None, None, Some err), c\<lparr>client_api := (client_api c)\<lparr>limiter := l1\<rparr>\<rparr>, w1,
           [EvRateWait])
      | (None, l1, w1) \<Rightarrow>
          let c1 = c\<lparr>client_api := (client_api c)\<lparr>limiter := l1\<rparr>\<rparr> in
          (case makeRequest lib (client_api c1) rb enc w1 of
             (Inl err, w2) \<Rightarrow> ((None, None, Some err), c1, w2, [EvRateWait])
           | (Inr httpReq, w2) \<Rightarrow>
               (case performRequest lib (client_api c1) httpReq w2 of
                  ((resp, perr), api2, w3, evs) \<Rightarrow>
                    let c2 = c1\<lparr>client_api := api2\<rparr> in
                    (case perr of
                       Some err \<Rightarrow> ((None, None, Some err), c2, w3, EvRateWait # evs)
                     | None \<Rightarrow>
                         (case resp of
                            None \<Rightarrow>
                              ((None, None, Some (Panic ''nil pointer dereference'')), c2, w3,
                               EvRateWait # evs)
                          | Some r \<Rightarrow>
                              (case responseReader r of
                                 Inl err \<Rightarrow> ((None, None, Some err), c2, w3, EvRateWait # evs)
                               | Inr rd \<Rightarrow>
                                   (handleResponse c2 rb decode enc r rd, c2, w3,
                                    EvRateWait # evs @ [EvClose])))))))"

section \<open>Reading a run\<close>

text \<open>
  The pairs that the attempts of a run returned, the requests handed to the transport, and
  the answers of the breaker.
\<close>

fun attemptResults :: "event list \<Rightarrow> (response option \<times> error option) list" where
  "attemptResults [] = []"
| "attemptResults (EvAttempt resp err # evs) = (resp, err) # attemptResults evs"
| "attemptResults (ev # evs) = attemptResults evs"

fun transports :: "event list \<Rightarrow> (request \<times> byte list) list" where
  "transports [] = []"
| "transports (EvTransport req bs # evs) = (req, bs) # transports evs"
| "transports (ev # evs) = transports evs"

fun breakerAnswers :: "event list \<Rightarrow> error option list" where
  "breakerAnswers [] = []"
| "breakerAnswers (EvBreaker answer # evs) = answer # breakerAnswers evs"
| "breakerAnswers (ev # evs) = breakerAnswers evs"

definition sentBodies :: "event list \<Rightarrow> byte list list" where
  "sentBodies evs = map snd (transports evs)"

section \<open>Concrete inputs\<close>

text \<open>A delay function that ignores the world: one second, whatever the attempt.\<close>

definition constDelay :: "int64 \<Rightarrow> duration \<Rightarrow> duration \<Rightarrow> 'x \<Rightarrow> duration \<times> 'x" where
  "constDelay n mn mx x = (1000000000, x)"

definition mkBackoff :: "int64 \<Rightarrow> int64 \<Rightarrow> 'x backoff" where
  "mkBackoff mx a =
     \<lparr>minWaitTime = 1000000000, maxWaitTime = 2000000000, maxAttempts = mx,
      attempts = a, retryFunc = constDelay\<rparr>"

text \<open>A limiter with a burst and a limit change scheduled, at instant 1, for instant 5.\<close>

definition pendingLimiter :: "nat adaptiveBucketLimiter" where
  "pendingLimiter = SetLimitAt 1 5 (7::nat) (SetBurstAt 1 5 10 (newAdaptiveBucketLimiter 1 1))"

text \<open>
  A stub of the library (of the addresses it knows the base address
  \<open>https://api.example.com/v1\<close>; the string form of a URL is its scheme, its host and
  the path as \<open>URL.String\<close> writes it; a new request gets as its path what follows the
  host in the string it is given), a transport that always answers 429 and counts its
  calls in the world, the retry condition of the repository's example (\<open>resp != nil\<close> and status
  429), and a client that retries on it with a constant delay of one second.
\<close>

definition okResponse :: "int \<Rightarrow> response" where
  "okResponse code = \<lparr>StatusCode = code, RespHeader = Map.empty, RespBody = []\<rparr>"

definition always429 :: "request \<Rightarrow> byte list \<Rightarrow> nat \<Rightarrow> (error + response) \<times> nat" where
  "always429 req bs n = (Inr (okResponse 429), n + 1)"

definition cond429 :: RetryCond where
  "cond429 resp err = (case resp of None \<Rightarrow> False | Some r \<Rightarrow> StatusCode r = 429)"

definition exampleURL :: "string \<Rightarrow> url" where
  "exampleURL p =
     \<lparr>Scheme = ''https'', Host = ''api.example.com'', Path = p,
      RawPath = '''', RawQuery = '''', Fragment = ''''\<rparr>"

definition stubLib :: "(nat, nat) stdlib" where
  "stubLib =
     \<lparr>urlParse = (\<lambda>s. if s = ''https://api.example.com/v1'' then Inr (exampleURL ''/v1'')
                       else Inl (ErrorString ''parse error'')),
      urlString = (\<lambda>u. Scheme u @ ''://'' @ Host u @ sentPath u),
      newRequest = (\<lambda>m s. Inr \<lparr>Method = m, URL = exampleURL (drop (length ''https://api.example.com'') s),
                                 Header = Map.empty, Body = None\<rparr>),
      dumpResponse = (\<lambda>resp. None),
      timeNow = (\<lambda>x. int x),
      rateWait = (\<lambda>rl x. (None, x))\<rparr>"

definition api429 :: "int64 \<Rightarrow> (nat, nat) API" where
  "api429 mx =
     \<lparr>httpClient = always429,
      options = \<lparr>BaseURL = ''https://api.example.com/v1'', Headers = Map.empty, Debug = False,
                  Conditions = [cond429]\<rparr>,
      retry = Some (mkBackoff mx 0),
      limiter = newAdaptiveBucketLimiter 0 1,
      breaker = None\<rparr>"

text \<open>
  The same client with the default delay function, on a platform whose conversion of a
  value out of range gives zero and with every draw \<open>1/2\<close>.
\<close>

definition halfJitter :: "int64 \<Rightarrow> duration \<Rightarrow> duration \<Rightarrow> 'x \<Rightarrow> duration \<times> 'x" where
  "halfJitter n mn mx x = (ExponentalBackoff (\<lambda>v. 0) (1 / 2) n mn mx, x)"

definition apiDefault :: "(nat, nat) API" where
  "apiDefault = (api429 3)\<lparr>retry := Some ((mkBackoff 3 0)\<lparr>retryFunc := halfJitter\<rparr>)\<rparr>"

definition getRequest :: request where
  "getRequest = \<lparr>Method = ''GET'', URL = exampleURL ''/fact'', Header = Map.empty, Body = None\<rparr>"

definition world0 :: "nat world" where
  "world0 = \<lparr>ext = 0, readers = (\<lambda>a. []), nextReader = 0\<rparr>"

text \<open>
  A breaker that lets a request through while the transport has not been called (the
  world counts its calls) and is open from then on, a client that has it, and a request
  whose body holds three bytes.
\<close>

definition trippingBreaker :: "nat gobreaker" where
  "trippingBreaker =
     \<lparr>beforeRequest = (\<lambda>x. if x = 0 then (None, x) else (Some ErrOpenState, x)),
      afterRequest = (\<lambda>ok x. x)\<rparr>"

definition apiTripping :: "(nat, nat) API" where
  "apiTripping = (api429 3)\<lparr>breaker := Some \<lparr>Breaker = Some trippingBreaker\<rparr>\<rparr>"

definition postRequest :: request where
  "postRequest = \<lparr>Method = ''POST'', URL = exampleURL ''/fact'', Header = Map.empty, Body = Some 0\<rparr>"

definition world1 :: "nat world" where
  "world1 = \<lparr>ext = 0, readers = (\<lambda>a. if a = 0 then [1, 2, 3] else []), nextReader = 1\<rparr>"




definition formBuilder :: "(nat, unit) RequestBuilder" where
  "formBuilder =
     \<lparr>reqMethod = ''POST'', resourcePath = ''/fact'', reqBody = None,
      requestOptions = [WithRequestForm [1, 2]], errDecodeFn = None\<rparr>"


definition noCodec :: "(unit, unit) EncoderDecoder option" where
  "noCodec = None"

definition cancelledLib :: "(nat, nat) stdlib" where
  "cancelledLib = stubLib\<lparr>rateWait := (\<lambda>rl x. (Some Canceled, x))\<rparr>"

definition plainClient :: "(nat, nat, unit) client" where
  "plainClient = \<lparr>client_api = api429 3, afterResponse = [], zeroResp = ()\<rparr>"

definition readBody :: "response \<Rightarrow> error + byte list" where
  "readBody resp = Inr (RespBody resp)"

section \<open>Properties of the retry controller\<close>

lemma sint_succ_below:
  fixes a m :: int64
  assumes "\<not> m \<le>s a"
  shows "sint (a + 1) = sint a + 1"
proof -
  have lt: "sint a < sint m" using assms by (simp add: word_sle_eq)
  have "sint m < 2 ^ 63" using sint_lt [of m] by simp
  moreover have "- (2 ^ 63) \<le> sint a" using sint_ge [of a] by simp
  ultimately have "- (2 ^ 63) \<le> sint a + 1" and "sint a + 1 < 2 ^ 63"
    using lt by linarith+
  then show ?thesis
    by (simp add: sint_word_ariths signed_take_bit_int_eq_self)
qed

lemma Next_stop: "maxAttempts b \<le>s attempts b \<Longrightarrow> Next b x = (stopBackoff, b, x)"
  by (simp add: Next_def)

lemma Next_go:
  "\<not> maxAttempts b \<le>s attempts b \<Longrightarrow>
   Next b x = (fst (retryFunc b (attempts b + 1) (minWaitTime b) (maxWaitTime b) x),
               b\<lparr>attempts := attempts b + 1\<rparr>,
               snd (retryFunc b (attempts b + 1) (minWaitTime b) (maxWaitTime b) x))"
  by (simp add: Next_def Let_def split: prod.splits)

lemma Next_maxAttempts: "maxAttempts (fst (snd (Next b x))) = maxAttempts b"
  by (cases "maxAttempts b \<le>s attempts b") (simp_all add: Next_stop Next_go)

lemma Next_attempts:
  "sint (attempts (fst (snd (Next b x)))) =
     (if sint (maxAttempts b) \<le> sint (attempts b) then sint (attempts b)
      else sint (attempts b) + 1)"
proof (cases "maxAttempts b \<le>s attempts b")
  case True
  then show ?thesis by (simp add: Next_stop word_sle_eq)
next
  case False
  then show ?thesis
    using sint_succ_below [OF False] by (simp add: Next_go word_sle_eq)
qed

lemma NextTimes_maxAttempts: "maxAttempts (fst (NextTimes k b x)) = maxAttempts b"
proof (induction k arbitrary: b x)
  case 0
  then show ?case by simp
next
  case (Suc k)
  obtain d b' x' where n: "Next b x = (d, b', x')" by (cases "Next b x") auto
  have "maxAttempts b' = maxAttempts b" using Next_maxAttempts [of b x] n by simp
  then show ?case using Suc.IH [of b' x'] n by simp
qed

lemma NextTimes_attempts:
  "sint (attempts (fst (NextTimes k b x))) =
     (if sint (maxAttempts b) \<le> sint (attempts b) then sint (attempts b)
      else min (sint (attempts b) + int k) (sint (maxAttempts b)))"
proof (induction k arbitrary: b x)
  case 0
  then show ?case by simp
next
  case (Suc k)
  obtain d b' x' where n: "Next b x = (d, b', x')" by (cases "Next b x") auto
  have m: "maxAttempts b' = maxAttempts b" using Next_maxAttempts [of b x] n by simp
  have a: "sint (attempts b') =
     (if sint (maxAttempts b) \<le> sint (attempts b) then sint (attempts b)
      else sint (attempts b) + 1)"
    using Next_attempts [of b x] n by simp
  show ?case using Suc.IH [of b' x'] n m a by (simp split: if_splits)
qed

text \<open>
  Claim C3, as the code has it. A call of \<open>Next\<close> made while the counter is below
  the configured maximum increments the counter by one (without wrapping), invokes the
  delay function with the new attempt number, the minimum wait and the maximum wait, and
  returns its result. A call made while the counter has reached the maximum returns the
  stop sentinel and leaves both the counter and the world untouched: the delay function
  is not invoked and the counter is not incremented.
\<close>

theorem Next_spec:
  "(\<not> maxAttempts b \<le>s attempts b \<longrightarrow>
      Next b x = (fst (retryFunc b (attempts b + 1) (minWaitTime b) (maxWaitTime b) x),
                  b\<lparr>attempts := attempts b + 1\<rparr>,
                  snd (retryFunc b (attempts b + 1) (minWaitTime b) (maxWaitTime b) x))
      \<and> sint (attempts b + 1) = sint (attempts b) + 1)
   \<and> (maxAttempts b \<le>s attempts b \<longrightarrow> Next b x = (stopBackoff, b, x))"
proof (intro conjI impI)
  assume "\<not> maxAttempts b \<le>s attempts b"
  then show "Next b x = (fst (retryFunc b (attempts b + 1) (minWaitTime b) (maxWaitTime b) x),
                  b\<lparr>attempts := attempts b + 1\<rparr>,
                  snd (retryFunc b (attempts b + 1) (minWaitTime b) (maxWaitTime b) x))"
    by (rule Next_go)
next
  assume "\<not> maxAttempts b \<le>s attempts b"
  then show "sint (attempts b + 1) = sint (attempts b) + 1"
    by (rule sint_succ_below)
next
  assume "maxAttempts b \<le>s attempts b"
  then show "Next b x = (stopBackoff, b, x)"
    by (rule Next_stop)
qed

theorem Next_spec_witness:
  "\<not> maxAttempts (mkBackoff 3 0) \<le>s attempts (mkBackoff 3 0)
   \<and> Next (mkBackoff 3 0) () = (1000000000, mkBackoff 3 1, ())
   \<and> maxAttempts (mkBackoff 1 1) \<le>s attempts (mkBackoff 1 1)
   \<and> Next (mkBackoff 1 1) () = (stopBackoff, mkBackoff 1 1, ())"
  using Next_spec [of "mkBackoff 3 0" "()"] Next_spec [of "mkBackoff 1 1" "()"]
  by (simp add: mkBackoff_def constDelay_def word_sle_eq)

text \<open>
  Claim C3 as the specification words it has every call increment the counter. At the
  maximum the counter stays where it is.
\<close>

theorem Next_always_increments_counterexample:
  "attempts (fst (snd (Next (mkBackoff 1 1) ()))) \<noteq> attempts (mkBackoff 1 1) + 1"
  by (simp add: Next_def mkBackoff_def word_sle_eq)

text \<open>
  Claim C4, as the code has it. After a reset, \<open>k\<close> calls of \<open>Next\<close> followed by
  \<open>Reset\<close> return the smaller of \<open>k\<close> and the configured maximum (a negative
  maximum counting as zero), and leave the counter at zero: only the calls made below
  the maximum are counted.
\<close>

theorem Reset_counts_Next:
  "sint (fst (Reset (fst (NextTimes k (snd (Reset b)) x))))
     = min (int k) (max 0 (sint (maxAttempts b)))
   \<and> attempts (snd (Reset (fst (NextTimes k (snd (Reset b)) x)))) = 0"
  using NextTimes_attempts [of k "snd (Reset b)" x]
  by (simp add: Reset_def)

text \<open>
  Claim C4 as the specification words it returns \<open>k\<close> itself. With a maximum of one,
  two calls of \<open>Next\<close> are counted as one.
\<close>

theorem Reset_counts_Next_counterexample:
  "fst (Reset (fst (NextTimes 2 (snd (Reset (mkBackoff 1 0))) ()))) \<noteq> 2"
  by (simp add: Reset_def Next_def mkBackoff_def constDelay_def word_sle_eq numeral_2_eq_2)

section \<open>Properties of the delay function\<close>

subsection \<open>Rounding to \<open>float64\<close>\<close>

lemma pw_of_bitlen:
  assumes "0 < p"
  shows "power_int 2 (bitlen p - 1) \<le> (of_int p :: rat)" and "(of_int p :: rat) < power_int 2 (bitlen p)"
proof -
  have b1: "1 \<le> bitlen p" using assms by (auto simp: bitlen_alt_def)
  have lo: "2 ^ nat (bitlen p - 1) \<le> p" and hi: "p < 2 ^ nat (bitlen p)"
    using bitlen_bounds [OF assms] by simp_all
  have "(of_int (2 ^ nat (bitlen p - 1)) :: rat) \<le> of_int p" using lo by (simp only: of_int_le_iff)
  then show "power_int 2 (bitlen p - 1) \<le> (of_int p :: rat)"
    using b1 by (simp add: power_int_nonneg_exp)
  have "(of_int p :: rat) < of_int (2 ^ nat (bitlen p))" using hi by (simp only: of_int_less_iff)
  then show "(of_int p :: rat) < power_int 2 (bitlen p)"
    using b1 by (simp add: power_int_nonneg_exp)
qed

lemma ilog2_bounds:
  assumes "0 < x"
  shows "power_int 2 (ilog2 x) \<le> x" and "x < power_int 2 (ilog2 x + 1)"
proof -
  obtain p q where pq: "quotient_of x = (p, q)" by (metis surj_pair)
  have q: "0 < q" by (rule quotient_of_denom_pos [OF pq])
  have x: "x = of_int p / of_int q" by (rule quotient_of_div [OF pq])
  have p: "0 < p" using assms q by (simp add: x zero_less_divide_iff)
  define d where "d = bitlen p - bitlen q"
  have Q: "(0::rat) < of_int q" using q by simp
  have up: "x < power_int 2 (d + 1)"
  proof -
    have "of_int p * power_int 2 (bitlen q - 1) < power_int 2 (bitlen p) * (of_int q :: rat)"
      using pw_of_bitlen(2) [OF p] pw_of_bitlen(1) [OF q] p
      by (intro mult_less_le_imp_less) simp_all
    then have "x < power_int 2 (bitlen p) / power_int 2 (bitlen q - 1)"
      using Q by (simp add: x field_simps)
    also have "\<dots> = power_int 2 (bitlen p - (bitlen q - 1))"
      by (simp add: power_int_diff)
    finally show ?thesis by (simp add: d_def algebra_simps)
  qed
  have low: "power_int 2 (d - 1) < x"
  proof -
    have "power_int 2 (bitlen p - 1) * (of_int q :: rat) < of_int p * power_int 2 (bitlen q)"
      using pw_of_bitlen(1) [OF p] pw_of_bitlen(2) [OF q] q
      by (intro mult_le_less_imp_less) simp_all
    then have "power_int 2 (bitlen p - 1) / power_int 2 (bitlen q) < x"
      using Q by (simp add: x field_simps)
    moreover have "power_int 2 (bitlen p - 1) / power_int 2 (bitlen q) = (power_int 2 (bitlen p - 1 - bitlen q) :: rat)"
      by (simp add: power_int_diff)
    ultimately show ?thesis by (simp add: d_def algebra_simps)
  qed
  have il: "ilog2 x = (if power_int 2 d \<le> x then d else d - 1)"
    by (simp add: ilog2_def pq d_def Let_def)
  show "power_int 2 (ilog2 x) \<le> x" using low by (simp add: il)
  show "x < power_int 2 (ilog2 x + 1)" using up by (simp add: il)
qed

lemma roundHalfEven_of_int [simp]: "roundHalfEven (of_int k) = k"
  by (simp add: roundHalfEven_def)

lemma roundHalfEven_cases:
  "roundHalfEven y = \<lfloor>y\<rfloor> \<and> y - of_int \<lfloor>y\<rfloor> \<le> 1 / 2
   \<or> roundHalfEven y = \<lfloor>y\<rfloor> + 1 \<and> 1 / 2 \<le> y - of_int \<lfloor>y\<rfloor>"
  by (auto simp: roundHalfEven_def Let_def)

lemma roundHalfEven_err: "\<bar>of_int (roundHalfEven y) - y\<bar> \<le> 1 / 2"
proof -
  have "of_int \<lfloor>y\<rfloor> \<le> y" and "y < of_int \<lfloor>y\<rfloor> + 1" by linarith+
  then show ?thesis using roundHalfEven_cases [of y] by auto
qed

lemma roundHalfEven_le:
  assumes "y \<le> of_int m"
  shows "roundHalfEven y \<le> m"
proof -
  have fl: "\<lfloor>y\<rfloor> \<le> m" using assms by (simp add: floor_le_iff)
  show ?thesis
  proof (cases "y = of_int \<lfloor>y\<rfloor>")
    case True
    then have "roundHalfEven y = \<lfloor>y\<rfloor>" by (metis roundHalfEven_of_int)
    then show ?thesis using fl by simp
  next
    case False
    have "of_int \<lfloor>y\<rfloor> \<le> y" by linarith
    then have "of_int \<lfloor>y\<rfloor> < y" using False by (auto simp: less_le)
    then have "(of_int \<lfloor>y\<rfloor> :: rat) < of_int m" using assms by simp
    then have "\<lfloor>y\<rfloor> < m" by (simp only: of_int_less_iff)
    then show ?thesis using roundHalfEven_cases [of y] by auto
  qed
qed

lemma roundHalfEven_nonneg: "0 \<le> y \<Longrightarrow> 0 \<le> roundHalfEven y"
proof -
  assume "0 \<le> y"
  then have "0 \<le> \<lfloor>y\<rfloor>" by simp
  then show ?thesis using roundHalfEven_cases [of y] by auto
qed

lemma ulpExp_bounds:
  assumes "0 < x"
  shows "x < power_int 2 (ulpExp x) * 2 ^ 53"
    and "power_int 2 (ulpExp x) \<le> x / 2 ^ 52 \<or> ulpExp x = - 1074"
    and "- 1074 \<le> ulpExp x"
proof -
  have "ilog2 x + 1 \<le> ulpExp x + 53" by (simp add: ulpExp_def)
  then have "power_int (2::rat) (ilog2 x + 1) \<le> power_int 2 (ulpExp x + 53)"
    by (intro power_int_increasing) simp_all
  then have "x < power_int 2 (ulpExp x + 53)" using ilog2_bounds(2) [OF assms] by simp
  then show "x < power_int 2 (ulpExp x) * 2 ^ 53" by (simp add: power_int_add)
  show "power_int 2 (ulpExp x) \<le> x / 2 ^ 52 \<or> ulpExp x = - 1074"
  proof (cases "ulpExp x = - 1074")
    case False
    then have "ulpExp x = ilog2 x - 52" by (simp add: ulpExp_def max_def split: if_splits)
    then have "power_int (2::rat) (ulpExp x) = power_int 2 (ilog2 x) / 2 ^ 52"
      by (simp add: power_int_diff)
    then show ?thesis using ilog2_bounds(1) [OF assms] by (simp add: divide_right_mono)
  qed simp
  show "- 1074 \<le> ulpExp x" by (simp add: ulpExp_def)
qed

lemma roundFloat64_pos:
  assumes "0 < x"
  shows "roundFloat64 x =
           (if overflowThreshold \<le> of_int (roundHalfEven (x / power_int 2 (ulpExp x))) * power_int 2 (ulpExp x)
            then PosInf
            else Finite (of_int (roundHalfEven (x / power_int 2 (ulpExp x))) * power_int 2 (ulpExp x)))"
  using assms by (simp add: roundFloat64_def Let_def)

lemma round_quotient:
  assumes "0 < x"
  shows "0 \<le> roundHalfEven (x / power_int 2 (ulpExp x))"
    and "roundHalfEven (x / power_int 2 (ulpExp x)) \<le> 2 ^ 53"
    and "\<bar>of_int (roundHalfEven (x / power_int 2 (ulpExp x))) * power_int 2 (ulpExp x) - x\<bar>
           \<le> power_int 2 (ulpExp x) / 2"
proof -
  define u :: rat where "u = power_int 2 (ulpExp x)"
  have u: "0 < u" by (simp add: u_def)
  have "0 \<le> x / u" using assms u by simp
  then show "0 \<le> roundHalfEven (x / power_int 2 (ulpExp x))"
    unfolding u_def by (rule roundHalfEven_nonneg)
  have "x / u < 2 ^ 53" using ulpExp_bounds(1) [OF assms] u by (simp add: u_def field_simps)
  then have "x / u \<le> of_int (2 ^ 53)" by simp
  then show "roundHalfEven (x / power_int 2 (ulpExp x)) \<le> 2 ^ 53"
    unfolding u_def by (rule roundHalfEven_le)
  have B: "\<bar>of_int (roundHalfEven (x / u)) - x / u\<bar> * u \<le> 1 / 2 * u"
    using roundHalfEven_err [of "x / u"] u by (intro mult_right_mono) simp_all
  have "(of_int (roundHalfEven (x / u)) - x / u) * u = of_int (roundHalfEven (x / u)) * u - x"
    using u by (simp add: field_simps)
  then have "\<bar>of_int (roundHalfEven (x / u)) * u - x\<bar>
      = \<bar>(of_int (roundHalfEven (x / u)) - x / u) * u\<bar>"
    by simp
  also have "\<dots> = \<bar>of_int (roundHalfEven (x / u)) - x / u\<bar> * u"
    using u by (simp add: abs_mult)
  finally have "\<bar>of_int (roundHalfEven (x / u)) * u - x\<bar> \<le> 1 / 2 * u"
    using B by simp
  then show "\<bar>of_int (roundHalfEven (x / power_int 2 (ulpExp x))) * power_int 2 (ulpExp x) - x\<bar>
           \<le> power_int 2 (ulpExp x) / 2"
    by (simp add: u_def)
qed


lemma roundFloat64_exact:
  fixes K j :: int
  assumes K: "0 \<le> K" "K < 2 ^ 53" and j: "- 1074 \<le> j"
      and fin: "of_int K * power_int 2 j < overflowThreshold"
  shows "roundFloat64 (of_int K * power_int 2 j) = Finite (of_int K * power_int 2 j)"
proof (cases "K = 0")
  case True
  then show ?thesis by (simp add: roundFloat64_def)
next
  case False
  define x :: rat where "x = of_int K * power_int 2 j"
  have K0: "0 < K" using K False by simp
  have x: "0 < x" using K0 by (simp add: x_def)
  define e where "e = ulpExp x"
  have "(of_int K :: rat) < of_int (2 ^ 53)" using K(2) by (simp only: of_int_less_iff)
  then have "x < 2 ^ 53 * power_int 2 j" by (simp add: x_def)
  then have up: "x < power_int 2 (53 + j)" by (simp add: power_int_add)
  have "\<not> 53 + j \<le> ilog2 x"
  proof
    assume "53 + j \<le> ilog2 x"
    then have "power_int (2::rat) (53 + j) \<le> power_int 2 (ilog2 x)"
      by (intro power_int_increasing) simp_all
    then show False using ilog2_bounds(1) [OF x] up by simp
  qed
  then have ej: "e \<le> j" using j by (simp add: e_def ulpExp_def)
  define z where "z = K * 2 ^ nat (j - e)"
  have "power_int (2::rat) j = power_int 2 (j - e) * power_int 2 e"
    by (simp flip: power_int_add)
  also have "power_int (2::rat) (j - e) = 2 ^ nat (j - e)" using ej by (simp add: power_int_nonneg_exp)
  finally have xz: "x = of_int z * power_int 2 e" by (simp add: x_def z_def)
  have "x / power_int 2 e = of_int z" by (simp add: xz)
  then have "roundHalfEven (x / power_int 2 (ulpExp x)) = z" by (simp add: e_def)
  then have "roundFloat64 x = Finite x"
    using roundFloat64_pos [OF x] fin xz by (simp add: e_def x_def)
  then show ?thesis by (simp add: x_def)
qed

lemma roundFloat64_repr:
  assumes "0 \<le> x" and "roundFloat64 x = Finite y"
  shows "\<exists>K j. y = of_int K * power_int 2 j \<and> 0 \<le> K \<and> K < 2 ^ 53 \<and> - 1074 \<le> (j::int)"
proof (cases "x = 0")
  case True
  then have "y = of_int 0 * power_int 2 0" using assms(2) by (simp add: roundFloat64_def)
  then show ?thesis by (intro exI [of _ 0] exI [of _ "0::int"]) simp
next
  case False
  then have x: "0 < x" using assms(1) by simp
  define k where "k = roundHalfEven (x / power_int 2 (ulpExp x))"
  have y: "y = of_int k * power_int 2 (ulpExp x)"
    using assms(2) unfolding roundFloat64_pos [OF x] k_def [symmetric] by (simp split: if_splits)
  have k: "0 \<le> k" "k \<le> 2 ^ 53" using round_quotient(1,2) [OF x] by (simp_all add: k_def)
  have j: "- 1074 \<le> ulpExp x" by (rule ulpExp_bounds(3) [OF x])
  show ?thesis
  proof (cases "k = 2 ^ 53")
    case True
    have "power_int (2::rat) (ulpExp x + 1) = power_int 2 (ulpExp x) * 2"
      by (rule power_int_add_1) simp
    then have "y = of_int (2 ^ 52) * power_int 2 (ulpExp x + 1)"
      by (simp add: y True)
    moreover have "(0::int) \<le> 2 ^ 52" "(2::int) ^ 52 < 2 ^ 53" "- 1074 \<le> ulpExp x + 1"
      using j by simp_all
    ultimately show ?thesis by blast
  next
    case False
    then have "k < 2 ^ 53" using k(2) by simp
    then show ?thesis using y k(1) j by blast
  qed
qed


lemma roundFloat64_error:
  assumes "0 \<le> x" and "roundFloat64 x = Finite y"
  shows "0 \<le> y"
    and "y \<le> x + x / 2 ^ 53 + power_int 2 (- 1075)"
    and "x - x / 2 ^ 53 - power_int 2 (- 1075) \<le> y"
proof -
  have all: "0 \<le> y \<and> y \<le> x + x / 2 ^ 53 + power_int 2 (- 1075)
      \<and> x - x / 2 ^ 53 - power_int 2 (- 1075) \<le> y"
  proof (cases "x = 0")
    case True
    then have "y = 0" using assms(2) by (simp add: roundFloat64_def)
    then show ?thesis using True by simp
  next
    case False
    then have x: "0 < x" using assms(1) by simp
    define u :: rat where "u = power_int 2 (ulpExp x)"
    define k where "k = roundHalfEven (x / u)"
    have y: "y = of_int k * u"
      using assms(2) unfolding roundFloat64_pos [OF x] u_def [symmetric] k_def [symmetric]
      by (simp split: if_splits)
    have u: "0 < u" by (simp add: u_def)
    have "0 \<le> k" using round_quotient(1) [OF x] by (simp add: k_def u_def)
    then have y0: "0 \<le> y" using u by (simp add: y)
    have err: "\<bar>y - x\<bar> \<le> u / 2" using round_quotient(3) [OF x] by (simp add: y k_def u_def)
    have "power_int (2::rat) (- 1074) = 2 * power_int 2 (- 1075)"
      using power_int_add [of "2::rat" 1 "- 1075"] by simp
    moreover have "u \<le> x / 2 ^ 52 + power_int 2 (- 1074)"
    proof (cases "ulpExp x = - 1074")
      case True
      then show ?thesis using x by (simp add: u_def)
    next
      case False
      then have "u \<le> x / 2 ^ 52" using ulpExp_bounds(2) [OF x] by (simp add: u_def)
      moreover have "(0::rat) \<le> power_int 2 (- 1074)" by simp
      ultimately show ?thesis by linarith
    qed
    moreover have "x / 2 ^ 52 = 2 * (x / 2 ^ 53)" by simp
    ultimately have "u / 2 \<le> x / 2 ^ 53 + power_int 2 (- 1075)" by linarith
    then show ?thesis using err y0 by linarith
  qed
  show "0 \<le> y" using all by simp
  show "y \<le> x + x / 2 ^ 53 + power_int 2 (- 1075)" using all by simp
  show "x - x / 2 ^ 53 - power_int 2 (- 1075) \<le> y" using all by simp
qed



lemma tiny_bounds: "(0::rat) < power_int 2 (- 1075)" "power_int (2::rat) (- 1075) \<le> 1 / 2 ^ 53"
proof -
  show "(0::rat) < power_int 2 (- 1075)" by (rule zero_less_power_int) simp
  have "power_int (2::rat) (- 1075) \<le> power_int 2 (- 53)"
    by (rule power_int_increasing) simp_all
  also have "power_int (2::rat) (- 53) = 1 / 2 ^ 53"
    using power_int_minus_divide [of "2::rat" 53] by simp
  finally show "power_int (2::rat) (- 1075) \<le> 1 / 2 ^ 53" .
qed

lemma roundFloat64_finite:
  assumes "0 \<le> x" and "x \<le> 2 ^ 64"
  shows "\<exists>y. roundFloat64 x = Finite y"
proof (cases "x = 0")
  case True
  then show ?thesis by (simp add: roundFloat64_def)
next
  case False
  then have x: "0 < x" using assms(1) by simp
  define u :: rat where "u = power_int 2 (ulpExp x)"
  define k where "k = roundHalfEven (x / u)"
  have err: "\<bar>of_int k * u - x\<bar> \<le> u / 2" using round_quotient(3) [OF x] by (simp add: k_def u_def)
  have "u \<le> x / 2 ^ 52 + 1"
  proof (cases "ulpExp x = - 1074")
    case True
    have "power_int (2::rat) (- 1074) \<le> power_int 2 0" by (rule power_int_increasing) simp_all
    then have "u \<le> 1" by (simp only: u_def True power_int_0_right)
    moreover have "0 \<le> x / 2 ^ 52" using x by simp
    ultimately show ?thesis by linarith
  next
    case False
    then have "u \<le> x / 2 ^ 52" using ulpExp_bounds(2) [OF x] by (simp add: u_def)
    then show ?thesis by linarith
  qed
  moreover have "x / 2 ^ 52 \<le> x" using x by (simp add: field_simps)
  ultimately have "of_int k * u \<le> 2 * x + 1" using err by linarith
  also have "\<dots> \<le> 2 * 2 ^ 64 + 1" using assms(2) by simp
  also have "\<dots> < overflowThreshold" by (simp add: overflowThreshold_def)
  finally have "\<not> overflowThreshold \<le> of_int k * u" by simp
  then show ?thesis unfolding roundFloat64_pos [OF x] u_def [symmetric] k_def [symmetric] by simp
qed

lemma roundFloat64_dyadic:
  fixes K j :: int
  assumes "x = of_int K * power_int 2 j" and "0 \<le> K" and "K < 2 ^ 53" and "- 1074 \<le> j"
      and "x < 2 ^ 1024"
  shows "roundFloat64 x = Finite x"
  using roundFloat64_exact [of K j] assms by (simp add: overflowThreshold_def)

lemma roundFloat64_numeral:
  assumes "(numeral k :: int) < 2 ^ 53"
  shows "roundFloat64 (numeral k) = Finite (numeral k)"
proof -
  have "(of_int (numeral k) :: rat) < of_int (2 ^ 53)" using assms by (simp only: of_int_less_iff)
  also have "\<dots> < 2 ^ 1024" by simp
  finally have "(numeral k :: rat) < 2 ^ 1024" by simp
  then show ?thesis by (intro roundFloat64_dyadic [of _ "numeral k" 0]) (use assms in simp_all)
qed

subsection \<open>The delay before the clamp\<close>

lemma sint_of_int_eq': "- (2 ^ 63) \<le> k \<Longrightarrow> k < 2 ^ 63 \<Longrightarrow> sint (word_of_int k :: 64 word) = k"
  by (simp add: signed_take_bit_int_eq_self sint_sbintrunc')

lemma toDuration_in_range:
  assumes "0 \<le> q" and "q < 2 ^ 63"
  shows "toDuration oor (Finite q) = word_of_int \<lfloor>q\<rfloor>" and "0 \<le> \<lfloor>q\<rfloor>" and "\<lfloor>q\<rfloor> < 2 ^ 63"
proof -
  show f0: "0 \<le> \<lfloor>q\<rfloor>" using assms(1) by simp
  have "q < of_int (2 ^ 63)" using assms(2) by simp
  then show f1: "\<lfloor>q\<rfloor> < 2 ^ 63" by (simp only: floor_less_iff)
  show "toDuration oor (Finite q) = word_of_int \<lfloor>q\<rfloor>"
    using f0 f1 assms(1) by (simp add: toDuration_def truncRat_def)
qed

lemma float64_small:
  fixes n :: int64
  assumes "0 \<le> sint n" and "sint n < 2 ^ 53"
  shows "float64 n = Finite (of_int (sint n))"
proof -
  have "(of_int (sint n) :: rat) * power_int 2 0 < overflowThreshold"
  proof -
    have "(of_int (sint n) :: rat) < of_int (2 ^ 53)" using assms(2) by (simp only: of_int_less_iff)
    also have "\<dots> < overflowThreshold" by (simp add: overflowThreshold_def)
    finally show ?thesis by simp
  qed
  then have "roundFloat64 (of_int (sint n) * power_int 2 0) = Finite (of_int (sint n) * power_int 2 0)"
    using assms by (intro roundFloat64_exact) simp_all
  then show ?thesis by (simp only: float64_def power_int_0_right mult_1_right)
qed

lemma double_le_exp:
  assumes "1 \<le> N"
  shows "(of_nat N :: rat) * 2 \<le> 2 ^ N"
proof -
  obtain k where N: "N = Suc k" using assms by (cases N) simp_all
  have "k < 2 ^ k" by (rule less_exp)
  then have "Suc k \<le> 2 ^ k" by (rule Suc_leI)
  then have "(of_nat (Suc k) :: rat) \<le> of_nat (2 ^ k)" by (simp only: of_nat_le_iff)
  then show ?thesis by (simp add: N)
qed

lemma backoffDelay_zero:
  fixes n mn :: int64
  assumes n: "0 \<le> sint n" "sint n \<le> 62" and mn: "sint mn = 0"
  shows "backoffDelay oor r n mn = 0"
proof -
  have "roundFloat64 (of_int 0) = Finite 0" by (simp add: roundFloat64_def)
  then have f0: "float64 mn = Finite 0" by (simp only: float64_def mn of_int_0)
  have p: "pow2 (sint n) = Finite (power_int 2 (sint n))" using n by (simp add: pow2_def)
  have fn: "float64 n = Finite (of_int (sint n))" using n by (intro float64_small) simp_all
  have z: "roundFloat64 0 = Finite 0" by (simp add: roundFloat64_def)
  have "toDuration oor (Finite 0) = 0" by (simp add: toDuration_def truncRat_def)
  then show ?thesis by (simp add: backoffDelay_def f0 p fn z)
qed

lemma backoffDelay_value:
  fixes n mn :: int64
  assumes n: "1 \<le> sint n" "sint n \<le> 62"
      and mn: "1 \<le> sint mn"
      and r: "0 \<le> r" "r < 1"
      and room: "sint mn * 2 ^ (nat (sint n) + 1) \<le> 2 ^ 63"
      and fm: "float64 mn = Finite M"
  shows "\<lfloor>2 ^ nat (sint n) * M\<rfloor> \<le> sint (backoffDelay oor r n mn)
       \<and> sint (backoffDelay oor r n mn) \<le> 2 * \<lfloor>2 ^ nat (sint n) * M\<rfloor>"
proof -
  define N where "N = nat (sint n)"
  define mq :: rat where "mq = of_int (sint mn)"
  define t :: rat where "t = power_int 2 (- 1075)"
  define A where "A = 2 ^ N * M"
  define Q where "Q = 2 ^ N * mq"
  define P where "P = M * of_nat N"
  have nN: "sint n = int N" using n by (simp add: N_def)
  have N1: "1 \<le> N" using n by (simp add: N_def)
  have mq1: "1 \<le> mq" using mn unfolding mq_def by (simp only: of_int_1_le_iff)
  have t0: "0 < t" and t1: "t \<le> 1 / 2 ^ 53" using tiny_bounds by (simp_all add: t_def)
  have c53: "(1::rat) / 2 ^ 53 \<le> 1 / 4000" by simp
  have small: "x / 2 ^ 53 \<le> x / 4000" if "0 \<le> x" for x :: rat
    using that by (simp add: field_simps)
  have rf: "roundFloat64 mq = Finite M" using fm by (simp only: float64_def mq_def)
  have mq0: "0 \<le> mq" using mq1 by simp
  have M0: "0 \<le> M" and Mup: "M \<le> mq + mq / 2 ^ 53 + t" and Mlo: "mq - mq / 2 ^ 53 - t \<le> M"
    using roundFloat64_error [OF mq0 rf] by (simp_all add: t_def)
  obtain K j where MK: "M = of_int K * power_int 2 j" and K: "0 \<le> K" "K < 2 ^ 53"
    and j: "- 1074 \<le> (j::int)"
    using roundFloat64_repr [OF mq0 rf] by blast
  have f1: "M \<le> 1001 / 1000 * mq" using Mup small [OF mq0] t1 c53 mq1 by linarith
  have f4: "998 / 1000 \<le> M" using Mlo small [OF mq0] t1 c53 mq1 by linarith
  have "2 ^ N * M \<le> 2 ^ N * (1001 / 1000 * mq)" using f1 by (intro mult_left_mono) simp_all
  then have f2: "A \<le> 1001 / 1000 * Q" by (simp add: A_def Q_def)
  have f3: "Q \<le> 2 ^ 62"
  proof -
    have "sint mn * 2 ^ N * 2 \<le> 2 ^ 62 * 2" using room by (simp add: N_def)
    then have "sint mn * 2 ^ N \<le> 2 ^ 62" by simp
    then have "(of_int (sint mn * 2 ^ N) :: rat) \<le> of_int (2 ^ 62)" by (simp only: of_int_le_iff)
    then have "(of_int (sint mn) :: rat) * 2 ^ N \<le> 2 ^ 62" by (simp only: of_int_mult of_int_power of_int_numeral)
    then show ?thesis unfolding Q_def mq_def by (simp only: mult.commute)
  qed
  have A0: "0 \<le> A" using M0 by (simp add: A_def)
  have A63: "A < 2 ^ 63" using f2 f3 by simp
  have p: "pow2 (sint n) = Finite (2 ^ N)" using n by (simp add: pow2_def nN)
  have "A = of_int K * power_int 2 (j + int N)" by (simp add: A_def MK power_int_add)
  moreover have "A < overflowThreshold" using A63 by (simp add: overflowThreshold_def)
  ultimately have "roundFloat64 A = Finite A"
    using roundFloat64_exact [of K "j + int N"] K j by simp
  then have d: "fmul (pow2 (sint n)) (float64 mn) = Finite A" by (simp add: p fm A_def)
  note D = toDuration_in_range [OF A0 A63]
  define x1 where "x1 = r * M"
  have x10: "0 \<le> x1" using r M0 by (simp add: x1_def)
  have "r * M \<le> 1 * M" using r M0 by (intro mult_right_mono) simp_all
  then have x1M: "x1 \<le> M" by (simp add: x1_def)
  have "M \<le> 2 ^ 64" using f1 f2 f3 A_def mq1
  proof -
    have "mq \<le> Q" using mq1 by (simp add: Q_def)
    then show ?thesis using f1 f3 by simp
  qed
  then have "x1 \<le> 2 ^ 64" using x1M by simp
  then obtain y1 where y1: "roundFloat64 x1 = Finite y1"
    using roundFloat64_finite [OF x10] by blast
  have y10: "0 \<le> y1" and y1up: "y1 \<le> x1 + x1 / 2 ^ 53 + t"
    using roundFloat64_error(1,2) [OF x10 y1] by (simp_all add: t_def)
  have f5: "y1 \<le> 1001 / 1000 * M" using y1up small [OF x10] x1M t1 c53 f4 by linarith
  have "float64 n = Finite (of_int (sint n))" using n by (intro float64_small) simp_all
  then have fn: "float64 n = Finite (of_nat N)" by (simp only: nN of_int_of_nat_eq)
  define x2 where "x2 = y1 * of_nat N"
  have x20: "0 \<le> x2" using y10 by (simp add: x2_def)
  have "y1 * of_nat N \<le> 1001 / 1000 * M * of_nat N" using f5 by (intro mult_right_mono) simp_all
  then have f6: "x2 \<le> 1001 / 1000 * P" by (simp add: x2_def P_def)
  have "M * 1 \<le> M * of_nat N" using M0 N1 by (intro mult_left_mono) simp_all
  then have "M \<le> P" by (simp only: P_def mult_1_right)
  then have f7: "998 / 1000 \<le> P" using f4 by linarith
  have "M * (of_nat N * 2) \<le> M * 2 ^ N" using M0 double_le_exp [OF N1] by (intro mult_left_mono) simp_all
  then have f9: "P * 2 \<le> A" by (simp add: P_def A_def mult.commute mult.left_commute)
  have "x2 \<le> 2 ^ 64" using f6 f9 A63 by simp
  then obtain y2 where y2: "roundFloat64 x2 = Finite y2"
    using roundFloat64_finite [OF x20] by blast
  have y20: "0 \<le> y2" and y2up: "y2 \<le> x2 + x2 / 2 ^ 53 + t"
    using roundFloat64_error(1,2) [OF x20 y2] by (simp_all add: t_def)
  have f8: "y2 \<le> 1003 / 1000 * P" using y2up small [OF x20] f6 f7 t1 c53 by linarith
  have yA: "y2 \<le> A" using f8 f9 f7 by linarith
  have sum63: "A + y2 < 2 ^ 63" using f8 f9 f2 f3 f7 by simp
  have jt: "fmul (fmul (Finite r) (float64 mn)) (float64 n) = Finite y2"
    using y1 y2 by (simp add: fm fn x1_def x2_def)
  have y263: "y2 < 2 ^ 63" using sum63 A0 by simp
  note J = toDuration_in_range [OF y20 y263]
  have JD: "\<lfloor>y2\<rfloor> \<le> \<lfloor>A\<rfloor>" using yA by (rule floor_mono)
  have "of_int (\<lfloor>A\<rfloor> + \<lfloor>y2\<rfloor>) \<le> A + y2"
    unfolding of_int_add by (intro add_mono of_int_floor_le)
  then have "(of_int (\<lfloor>A\<rfloor> + \<lfloor>y2\<rfloor>) :: rat) < of_int (2 ^ 63)" using sum63 by simp
  then have lt: "\<lfloor>A\<rfloor> + \<lfloor>y2\<rfloor> < 2 ^ 63" by (simp only: of_int_less_iff)
  have bd: "backoffDelay oor r n mn = word_of_int (\<lfloor>A\<rfloor> + \<lfloor>y2\<rfloor>)"
    by (simp add: backoffDelay_def d jt D(1) J(1))
  have nn: "0 \<le> \<lfloor>A\<rfloor> + \<lfloor>y2\<rfloor>" using D(2) J(2) by linarith
  have "- (2 ^ 63) \<le> (0::int)" by simp
  then have "- (2 ^ 63) \<le> \<lfloor>A\<rfloor> + \<lfloor>y2\<rfloor>" using nn by (rule order_trans)
  then have "sint (backoffDelay oor r n mn) = \<lfloor>A\<rfloor> + \<lfloor>y2\<rfloor>"
    unfolding bd using lt by (rule sint_of_int_eq')
  then have "\<lfloor>A\<rfloor> \<le> sint (backoffDelay oor r n mn)
      \<and> sint (backoffDelay oor r n mn) \<le> 2 * \<lfloor>A\<rfloor>"
    using J(2) JD by linarith
  then show ?thesis by (simp only: A_def N_def)
qed

lemma backoffDelay_monotone:
  fixes n mn :: int64
  assumes n: "1 \<le> sint n" "sint n \<le> 61"
      and mn: "0 \<le> sint mn"
      and room: "sint mn * 2 ^ (nat (sint n) + 2) \<le> 2 ^ 63"
      and r1: "0 \<le> r1" "r1 < 1"
      and r2: "0 \<le> r2" "r2 < 1"
  shows "backoffDelay oor r1 n mn \<le>s backoffDelay oor r2 (n + 1) mn"
proof -
  define N where "N = nat (sint n)"
  have s1: "sint (n + 1) = sint n + 1"
  proof -
    have "- (2 ^ 63) \<le> sint n + 1" and "sint n + 1 < 2 ^ 63" using n by simp_all
    then show ?thesis by (simp add: sint_word_ariths signed_take_bit_int_eq_self)
  qed
  have N1: "nat (sint (n + 1)) = N + 1" using n by (simp add: s1 N_def nat_add_distrib)
  have n0: "1 \<le> sint n" "sint n \<le> 62" using n by simp_all
  have n1: "1 \<le> sint (n + 1)" "sint (n + 1) \<le> 62" using n s1 by simp_all
  show ?thesis
  proof (cases "sint mn = 0")
    case True
    have "0 \<le> sint n" "0 \<le> sint (n + 1)" using n0 n1 by simp_all
    then have "backoffDelay oor r1 n mn = 0" and "backoffDelay oor r2 (n + 1) mn = 0"
      using n0(2) n1(2) True by (simp_all add: backoffDelay_zero)
    then show ?thesis by simp
  next
    case False
    then have m1: "1 \<le> sint mn" using mn by simp
    have "(of_int (sint mn) :: rat) < of_int (2 ^ 63)"
      using sint_lt [of mn] by (simp only: of_int_less_iff) simp
    then have "(of_int (sint mn) :: rat) \<le> 2 ^ 64" by simp
    moreover have "(0::rat) \<le> of_int (sint mn)" using mn by (simp only: of_int_0_le_iff)
    ultimately obtain M where "roundFloat64 (of_int (sint mn)) = Finite M"
      using roundFloat64_finite by blast
    then have fm: "float64 mn = Finite M" by (simp only: float64_def)
    have M0: "0 \<le> M"
      using roundFloat64_error(1) [OF \<open>(0::rat) \<le> of_int (sint mn)\<close>] fm
      by (simp only: float64_def)
    have roomN: "sint mn * 2 ^ (N + 2) \<le> 2 ^ 63" using room by (simp only: N_def)
    have "sint mn * 2 ^ (N + 1) \<le> sint mn * 2 ^ (N + 2)" using mn by (intro mult_left_mono) simp_all
    then have room0: "sint mn * 2 ^ (nat (sint n) + 1) \<le> 2 ^ 63"
      using roomN unfolding N_def by (rule order_trans)
    have "nat (sint (n + 1)) + 1 = N + 2" using N1 by simp
    then have room1: "sint mn * 2 ^ (nat (sint (n + 1)) + 1) \<le> 2 ^ 63"
      using roomN by (simp only:)
    have hi: "sint (backoffDelay oor r1 n mn) \<le> 2 * \<lfloor>2 ^ N * M\<rfloor>"
      using backoffDelay_value [OF n0 m1 r1 room0 fm, of oor] by (simp only: N_def)
    have lo: "\<lfloor>2 ^ (N + 1) * M\<rfloor> \<le> sint (backoffDelay oor r2 (n + 1) mn)"
      using backoffDelay_value [OF n1 m1 r2 room1 fm, of oor] by (simp only: N1)
    have "of_int (2 * \<lfloor>2 ^ N * M\<rfloor>) = 2 * of_int \<lfloor>2 ^ N * M\<rfloor>" by simp
    also have "\<dots> \<le> 2 * (2 ^ N * M)" by (intro mult_left_mono of_int_floor_le) simp
    also have "\<dots> = 2 ^ (N + 1) * M" by simp
    finally have "2 * \<lfloor>2 ^ N * M\<rfloor> \<le> \<lfloor>2 ^ (N + 1) * M\<rfloor>" by (simp only: le_floor_iff)
    then have "sint (backoffDelay oor r1 n mn) \<le> sint (backoffDelay oor r2 (n + 1) mn)"
      using hi lo by linarith
    then show ?thesis by (simp only: word_sle_eq)
  qed
qed

text \<open>
  Claim C8, as the code has it. For attempt numbers \<open>1 \<le> n \<le> 61\<close> and a minimum
  wait \<open>min \<ge> 0\<close> with \<open>min * 2^(n+2) \<le> 2^63\<close>, so that neither conversion nor the
  addition leaves the range of \<open>int64\<close>, the delay before the clamp at attempt
  \<open>n + 1\<close> is at least the one at attempt \<open>n\<close>, whatever the two draws and with
  every rounding of \<open>float64\<close> counted. The returned delay never exceeds \<open>max\<close>,
  for every attempt number, minimum wait, maximum wait and draw.
\<close>

theorem ExponentalBackoff_monotone_le_max:
  "(1 \<le> sint n \<and> sint n \<le> 61 \<and> 0 \<le> sint mn \<and> sint mn * 2 ^ (nat (sint n) + 2) \<le> 2 ^ 63
      \<and> 0 \<le> r1 \<and> r1 < 1 \<and> 0 \<le> r2 \<and> r2 < 1
    \<longrightarrow> backoffDelay oor r1 n mn \<le>s backoffDelay oor r2 (n + 1) mn)
   \<and> ExponentalBackoff oor' r k mn' mx \<le>s mx"
proof (intro conjI impI)
  assume h: "1 \<le> sint n \<and> sint n \<le> 61 \<and> 0 \<le> sint mn
      \<and> sint mn * 2 ^ (nat (sint n) + 2) \<le> 2 ^ 63 \<and> 0 \<le> r1 \<and> r1 < 1 \<and> 0 \<le> r2 \<and> r2 < 1"
  show "backoffDelay oor r1 n mn \<le>s backoffDelay oor r2 (n + 1) mn"
    by (rule backoffDelay_monotone) (use h in simp_all)
next
  show "ExponentalBackoff oor' r k mn' mx \<le>s mx"
    by (simp add: ExponentalBackoff_def Let_def word_sle_eq word_sless_alt)
qed

theorem ExponentalBackoff_monotone_le_max_witness:
  "1 \<le> sint (1 :: int64) \<and> sint (1 :: int64) \<le> 61 \<and> 0 \<le> sint (1000000000 :: int64)
   \<and> sint (1000000000 :: int64) * 2 ^ (nat (sint (1 :: int64)) + 2) \<le> 2 ^ 63
   \<and> backoffDelay (\<lambda>_. 0) (1 / 2) 1 1000000000 \<le>s backoffDelay (\<lambda>_. 0) 0 (1 + 1) 1000000000
   \<and> ExponentalBackoff (\<lambda>_. 0) (1 / 2) 3 1000000000 2000000000 \<le>s 2000000000"
  using ExponentalBackoff_monotone_le_max
    [of 1 1000000000 "1 / 2" 0 "\<lambda>_. 0" "\<lambda>_. 0" "1 / 2" 3 1000000000 2000000000]
  by simp

text \<open>
  Claim C8 as the specification words it holds for every attempt number and minimum
  wait. With \<open>min = 3 * 2^59\<close> nanoseconds every \<open>float64\<close> operation of attempts 1
  and 2 is exact and both conversions fit, but with the draw \<open>3/4\<close> the \<open>int64\<close>
  addition of attempt 2 wraps: the delay before the clamp is negative there, below the
  one of attempt 1.
\<close>

theorem ExponentalBackoff_monotone_counterexample:
  "backoffDelay (\<lambda>_. 0) (3 / 4) 2 1729382256910270464
     <s backoffDelay (\<lambda>_. 0) 0 1 1729382256910270464"
proof -
  have r0: "roundFloat64 1729382256910270464 = Finite 1729382256910270464"
    by (rule roundFloat64_dyadic [of _ 3 59]) simp_all
  have r1: "roundFloat64 3458764513820540928 = Finite 3458764513820540928"
    by (rule roundFloat64_dyadic [of _ 3 60]) simp_all
  have r2: "roundFloat64 6917529027641081856 = Finite 6917529027641081856"
    by (rule roundFloat64_dyadic [of _ 3 61]) simp_all
  have r3: "roundFloat64 1297036692682702848 = Finite 1297036692682702848"
    by (rule roundFloat64_dyadic [of _ 9 57]) simp_all
  have r4: "roundFloat64 2594073385365405696 = Finite 2594073385365405696"
    by (rule roundFloat64_dyadic [of _ 9 58]) simp_all
  have one: "roundFloat64 1 = Finite 1" by (rule roundFloat64_dyadic [of _ 1 0]) simp_all
  have two: "roundFloat64 2 = Finite 2" by (rule roundFloat64_dyadic [of _ 1 1]) simp_all
  have zero: "roundFloat64 0 = Finite 0" by (simp add: roundFloat64_def)
  show ?thesis
    by (simp add: backoffDelay_def toDuration_def pow2_def float64_def truncRat_def
        r0 r1 r2 r3 r4 one two zero word_sless_alt)
qed

text \<open>The default delay function at a minimum wait of one second and a maximum of two.\<close>

lemma halfJitter_values:
  "ExponentalBackoff (\<lambda>v. 0) (1 / 2) 1 1000000000 2000000000 = 2000000000"
  "ExponentalBackoff (\<lambda>v. 0) (1 / 2) 2 1000000000 2000000000 = 2000000000"
  "ExponentalBackoff (\<lambda>v. 0) (1 / 2) 3 1000000000 2000000000 = 2000000000"
proof -
  have one: "roundFloat64 1 = Finite 1" by (rule roundFloat64_dyadic [of _ 1 0]) simp_all
  show "ExponentalBackoff (\<lambda>v. 0) (1 / 2) 1 1000000000 2000000000 = 2000000000"
    by (simp add: ExponentalBackoff_def backoffDelay_def toDuration_def pow2_def float64_def
        truncRat_def roundFloat64_numeral one word_sless_alt)
  show "ExponentalBackoff (\<lambda>v. 0) (1 / 2) 2 1000000000 2000000000 = 2000000000"
    by (simp add: ExponentalBackoff_def backoffDelay_def toDuration_def pow2_def float64_def
        truncRat_def roundFloat64_numeral one word_sless_alt)
  show "ExponentalBackoff (\<lambda>v. 0) (1 / 2) 3 1000000000 2000000000 = 2000000000"
    by (simp add: ExponentalBackoff_def backoffDelay_def toDuration_def pow2_def float64_def
        truncRat_def roundFloat64_numeral one word_sless_alt)
qed

section \<open>Properties of the rate limiter\<close>

lemma resetIfDue_behaviour:
  "resetIfDue now l =
     (if now \<le> nextResetAt l
      then l\<lparr>limiter_r := fold runEvent (nextResetEvents l) (limiter_r l),
             nextResetAt := zeroTime, nextResetEvents := []\<rparr>
      else l)"
  by (auto simp: resetIfDue_def tryReset_def)

text \<open>
  Claim C2 asks \<open>Wait\<close> to run the callbacks once the current time has reached the
  trigger, and to leave them alone before. \<open>tryReset\<close> compares the other way round.
  With the trigger at instant 5, a call of \<open>Wait\<close> at instant 7 runs nothing and keeps
  trigger and list; a call at instant 3, before the trigger, runs both callbacks in their
  order and clears trigger and list.
\<close>

theorem Wait_past_trigger_unchanged:
  "nextResetAt pendingLimiter = 5
   \<and> nextResetEvents pendingLimiter = [SetBurst 10, SetLimit 7]
   \<and> timeNow stubLib (ext (world0\<lparr>ext := 7\<rparr>)) = 7
   \<and> fst (snd (Wait stubLib pendingLimiter (world0\<lparr>ext := 7\<rparr>))) = pendingLimiter
   \<and> timeNow stubLib (ext (world0\<lparr>ext := 3\<rparr>)) = 3
   \<and> fst (snd (Wait stubLib pendingLimiter (world0\<lparr>ext := 3\<rparr>)))
       = \<lparr>limiter_r = \<lparr>limit = 7, burst = 10\<rparr>, nextResetAt = zeroTime, nextResetEvents = []\<rparr>"
  by (simp add: Wait_def stubLib_def world0_def pendingLimiter_def SetLimitAt_def SetBurstAt_def
      insertEvent_def validateResetAt_def newAdaptiveBucketLimiter_def resetIfDue_def
      tryReset_def zeroTime_def)

section \<open>Properties of the attempt loop\<close>

declare retryLoop.simps [simp del]

lemma attemptResults_append [simp]:
  "attemptResults (xs @ ys) = attemptResults xs @ attemptResults ys"
  by (induction xs rule: attemptResults.induct) simp_all

lemma transports_append [simp]:
  "transports (xs @ ys) = transports xs @ transports ys"
  by (induction xs rule: transports.induct) simp_all

lemma transport_events:
  "transport api req w = (res, w1, evs) \<Longrightarrow> attemptResults evs = [] \<and> length (transports evs) = 1"
  by (auto simp: transport_def Let_def split: prod.splits)

lemma Execute_events:
  assumes "Execute cb (transport api req) w = (res, w1, evs)"
  shows "attemptResults evs = []"
proof (cases "beforeRequest cb (ext w)")
  case (Pair refusal x)
  obtain r v tevs where tr: "transport api req (w\<lparr>ext := x\<rparr>) = (r, v, tevs)"
    by (metis prod_cases3)
  have "attemptResults tevs = []" using transport_events [OF tr] by simp
  then show ?thesis
    using assms Pair tr by (cases refusal) (auto simp: Execute_def)
qed

lemma roundTrip_events:
  assumes "roundTrip api req w = (res, w1, evs)"
  shows "attemptResults evs = []"
    and "activeBreaker api = None \<Longrightarrow> length (transports evs) = 1"
proof -
  show "attemptResults evs = []"
  proof (cases "activeBreaker api")
    case None
    then show ?thesis using assms transport_events [of api req w res w1 evs]
      by (simp add: roundTrip_def)
  next
    case (Some cb)
    obtain r v tevs where ex: "Execute cb (transport api req) w = (r, v, tevs)"
      by (metis prod_cases3)
    have "evs = tevs" using assms Some ex by (cases r) (simp_all add: roundTrip_def)
    then show ?thesis using Execute_events [OF ex] by simp
  qed
  show "activeBreaker api = None \<Longrightarrow> length (transports evs) = 1"
    using assms transport_events [of api req w res w1 evs] by (simp add: roundTrip_def)
qed

lemma debugDump_events:
  assumes "debugDump lib api res = (out, dump)"
  shows "attemptResults dump = []" and "transports dump = []"
  using assms by (auto simp: debugDump_def split: sum.splits if_splits option.splits)

lemma doAttempt_events:
  assumes "doAttempt lib api req reuse w = (out, req1, w2, evs)"
  obtains sendReq w1 res tevs dump where
    "rehydrate reuse req w = (req1, sendReq, w1)"
    and "roundTrip api sendReq w1 = (res, w2, tevs)"
    and "debugDump lib api res = (out, dump)"
    and "evs = tevs @ dump @ [EvAttempt (fst out) (snd out)]"
proof -
  obtain r1 s1 v1 where pre: "rehydrate reuse req w = (r1, s1, v1)"
    by (metis prod_cases3)
  obtain res v2 tevs where rt: "roundTrip api s1 v1 = (res, v2, tevs)"
    by (metis prod_cases3)
  obtain o1 dump where dd: "debugDump lib api res = (o1, dump)"
    by (metis surj_pair)
  have "doAttempt lib api req reuse w = (o1, r1, v2, tevs @ dump @ [EvAttempt (fst o1) (snd o1)])"
    by (simp add: doAttempt_def Let_def pre rt dd)
  then have "out = o1" "req1 = r1" "w2 = v2" "evs = tevs @ dump @ [EvAttempt (fst o1) (snd o1)]"
    using assms by simp_all
  then show ?thesis using that [of s1 v1 res tevs dump] pre rt dd by simp
qed

lemma doAttempt_attemptResults:
  assumes "doAttempt lib api req reuse w = (out, req1, w2, evs)"
  shows "attemptResults evs = [out]"
proof (rule doAttempt_events [OF assms])
  fix sendReq w1 res tevs dump
  assume rt: "roundTrip api sendReq w1 = (res, w2, tevs)"
    and dd: "debugDump lib api res = (out, dump)"
    and evs: "evs = tevs @ dump @ [EvAttempt (fst out) (snd out)]"
  show ?thesis
    using roundTrip_events(1) [OF rt] debugDump_events(1) [OF dd] by (simp add: evs)
qed

lemma doAttempt_transports_nobreaker:
  assumes nb: "activeBreaker api = None"
      and run: "doAttempt lib api req reuse w = (out, req1, w2, evs)"
  shows "length (transports evs) = 1"
proof (rule doAttempt_events [OF run])
  fix sendReq w1 res tevs dump
  assume rt: "roundTrip api sendReq w1 = (res, w2, tevs)"
    and dd: "debugDump lib api res = (out, dump)"
    and evs: "evs = tevs @ dump @ [EvAttempt (fst out) (snd out)]"
  show ?thesis
    using roundTrip_events(2) [OF rt nb] debugDump_events(2) [OF dd] by (simp add: evs)
qed

lemma retryLoop_unmatched:
  assumes "doAttempt lib api req True w = (res, req1, w1, evs1)"
      and "\<not> isMatchedCond (Conditions (options api)) res"
  shows "retryLoop lib api b req w = (res, req1, b, w1, evs1)"
  using assms by (subst retryLoop.simps) simp

lemma retryLoop_stop:
  assumes "doAttempt lib api req True w = (res, req1, w1, evs1)"
      and "isMatchedCond (Conditions (options api)) res"
      and "Next b (ext w1) = (stopBackoff, b1, x1)"
  shows "retryLoop lib api b req w = (res, req1, snd (Reset b1), w1\<lparr>ext := x1\<rparr>, evs1)"
  using assms by (subst retryLoop.simps) simp

lemma retryLoop_continue:
  assumes "doAttempt lib api req True w = (res, req1, w1, evs1)"
      and "isMatchedCond (Conditions (options api)) res"
      and "Next b (ext w1) = (d, b1, x1)"
      and "d \<noteq> stopBackoff"
      and "retryLoop lib api b1 req1 (w1\<lparr>ext := x1\<rparr>) = (res', req', b', w', evs')"
  shows "retryLoop lib api b req w = (res', req', b', w', evs1 @ EvSleep d # evs')"
  using assms by (subst retryLoop.simps) simp

lemma retryLoop_exhausts:
  assumes nostop: "\<And>n x. sint (attempts b) < sint n \<Longrightarrow> sint n \<le> sint (maxAttempts b) \<Longrightarrow>
                     fst (retryFunc b n (minWaitTime b) (maxWaitTime b) x) \<noteq> stopBackoff"
      and le: "sint (attempts b) \<le> sint (maxAttempts b)"
      and run: "retryLoop lib api b req w = (res, req', b', w', evs)"
      and matched: "list_all (isMatchedCond (Conditions (options api))) (attemptResults evs)"
  shows "int (length (attemptResults evs)) = sint (maxAttempts b) - sint (attempts b) + 1
       \<and> res = last (attemptResults evs) \<and> attempts b' = 0"
  using assms
proof (induction "nat (sint (maxAttempts b) - sint (attempts b))"
    arbitrary: b req w res req' b' w' evs rule: less_induct)
  case less
  obtain res1 req1 w1 evs1 where att: "doAttempt lib api req True w = (res1, req1, w1, evs1)"
    by (metis prod_cases4)
  have ar1: "attemptResults evs1 = [res1]" by (rule doAttempt_attemptResults [OF att])
  show ?case
  proof (cases "isMatchedCond (Conditions (options api)) res1")
    case False
    have "retryLoop lib api b req w = (res1, req1, b, w1, evs1)"
      by (rule retryLoop_unmatched [OF att False])
    then have "evs = evs1" using less.prems(3) by simp
    then show ?thesis using less.prems(4) ar1 False by simp
  next
    case True
    show ?thesis
    proof (cases "maxAttempts b \<le>s attempts b")
      case stop: True
      have "Next b (ext w1) = (stopBackoff, b, ext w1)" by (rule Next_stop [OF stop])
      then have "retryLoop lib api b req w
          = (res1, req1, snd (Reset b), w1\<lparr>ext := ext w1\<rparr>, evs1)"
        by (rule retryLoop_stop [OF att True])
      then have "evs = evs1" and "res = res1" and "b' = snd (Reset b)"
        using less.prems(3) by simp_all
      moreover have "sint (maxAttempts b) = sint (attempts b)"
        using stop less.prems(2) by (simp add: word_sle_eq)
      ultimately show ?thesis using ar1 by (simp add: Reset_def)
    next
      case go: False
      define d where "d = fst (retryFunc b (attempts b + 1) (minWaitTime b) (maxWaitTime b) (ext w1))"
      define x1 where "x1 = snd (retryFunc b (attempts b + 1) (minWaitTime b) (maxWaitTime b) (ext w1))"
      define b1 where "b1 = b\<lparr>attempts := attempts b + 1\<rparr>"
      have nxt: "Next b (ext w1) = (d, b1, x1)"
        using Next_go [OF go, of "ext w1"] by (simp add: d_def x1_def b1_def)
      have s1: "sint (attempts b1) = sint (attempts b) + 1"
        using sint_succ_below [OF go] by (simp add: b1_def)
      have lt: "sint (attempts b) < sint (maxAttempts b)" using go by (simp add: word_sle_eq)
      have "sint (attempts b) < sint (attempts b + 1)" and "sint (attempts b + 1) \<le> sint (maxAttempts b)"
        using s1 lt by (simp_all add: b1_def)
      then have d: "d \<noteq> stopBackoff" unfolding d_def by (rule less.prems(1))
      obtain res2 req2 b2 w2 evs2 where
        rec: "retryLoop lib api b1 req1 (w1\<lparr>ext := x1\<rparr>) = (res2, req2, b2, w2, evs2)"
        by (metis prod_cases5)
      have "retryLoop lib api b req w = (res2, req2, b2, w2, evs1 @ EvSleep d # evs2)"
        by (rule retryLoop_continue [OF att True nxt d rec])
      then have eq: "evs = evs1 @ EvSleep d # evs2" "res = res2" "b' = b2"
        using less.prems(3) by simp_all
      have m2: "list_all (isMatchedCond (Conditions (options api))) (attemptResults evs2)"
        using less.prems(4) by (simp add: eq ar1)
      have ih: "int (length (attemptResults evs2)) = sint (maxAttempts b1) - sint (attempts b1) + 1
          \<and> res2 = last (attemptResults evs2) \<and> attempts b2 = 0"
      proof (rule less.hyps [OF _ _ _ rec m2])
        show "nat (sint (maxAttempts b1) - sint (attempts b1))
            < nat (sint (maxAttempts b) - sint (attempts b))"
          using lt s1 by (simp add: b1_def)
        show "fst (retryFunc b1 n (minWaitTime b1) (maxWaitTime b1) x) \<noteq> stopBackoff"
          if "sint (attempts b1) < sint n" and "sint n \<le> sint (maxAttempts b1)" for n x
        proof -
          have "sint (attempts b) < sint n" using that(1) s1 by simp
          moreover have "sint n \<le> sint (maxAttempts b)" using that(2) by (simp add: b1_def)
          ultimately have "fst (retryFunc b n (minWaitTime b) (maxWaitTime b) x) \<noteq> stopBackoff"
            by (rule less.prems(1))
          then show ?thesis by (simp add: b1_def)
        qed
        show "sint (attempts b1) \<le> sint (maxAttempts b1)" using lt s1 by (simp add: b1_def)
      qed
      have ne: "attemptResults evs2 \<noteq> []"
      proof
        assume "attemptResults evs2 = []"
        then have "sint (maxAttempts b1) - sint (attempts b1) + 1 = 0" using ih by simp
        then show False using lt s1 by (simp add: b1_def)
      qed
      show ?thesis using ih ne s1 by (simp add: eq ar1 b1_def)
    qed
  qed
qed


lemma retryLoop_transports_nobreaker:
  assumes "activeBreaker api = None"
      and "retryLoop lib api b req w = (res, req', b', w', evs)"
  shows "length (transports evs) = length (attemptResults evs)"
  using assms
proof (induction lib api b req w arbitrary: res req' b' w' evs rule: retryLoop.induct)
  case (1 lib api b req w)
  obtain res1 req1 w1 evs1 where att: "doAttempt lib api req True w = (res1, req1, w1, evs1)"
    by (metis prod_cases4)
  have t1: "length (transports evs1) = 1"
    by (rule doAttempt_transports_nobreaker [OF "1.prems"(1) att])
  have a1: "attemptResults evs1 = [res1]" by (rule doAttempt_attemptResults [OF att])
  obtain d b1 x1 where nxt: "Next b (ext w1) = (d, b1, x1)" by (metis prod_cases3)
  show ?case
  proof (cases "isMatchedCond (Conditions (options api)) res1")
    case False
    have "retryLoop lib api b req w = (res1, req1, b, w1, evs1)"
      by (rule retryLoop_unmatched [OF att False])
    then have "evs = evs1" using "1.prems"(2) by simp
    then show ?thesis using t1 a1 by simp
  next
    case m: True
    show ?thesis
    proof (cases "d = stopBackoff")
      case True
      have "Next b (ext w1) = (stopBackoff, b1, x1)" using nxt True by simp
      then have "retryLoop lib api b req w = (res1, req1, snd (Reset b1), w1\<lparr>ext := x1\<rparr>, evs1)"
        by (rule retryLoop_stop [OF att m])
      then have "evs = evs1" using "1.prems"(2) by simp
      then show ?thesis using t1 a1 by simp
    next
      case dd: False
      obtain res2 req2 b2 w2 evs2 where
        rec: "retryLoop lib api b1 req1 (w1\<lparr>ext := x1\<rparr>) = (res2, req2, b2, w2, evs2)"
        by (metis prod_cases5)
      have "retryLoop lib api b req w = (res2, req2, b2, w2, evs1 @ EvSleep d # evs2)"
        by (rule retryLoop_continue [OF att m nxt dd rec])
      then have eq: "evs = evs1 @ EvSleep d # evs2" using "1.prems"(2) by simp
      have "length (transports evs2) = length (attemptResults evs2)"
        by (rule "1.IH" [OF att [symmetric] refl refl m nxt [symmetric] refl dd "1.prems"(1) rec])
      then show ?thesis using t1 a1 by (simp add: eq)
    qed
  qed
qed

lemmas fixture_defs = okResponse_def always429_def cond429_def stubLib_def mkBackoff_def constDelay_def
  api429_def getRequest_def world0_def exampleURL_def

lemmas pipeline_defs = performRequest_def doAttempt_def roundTrip_def debugDump_def transport_def
  rehydrate_def readAll_def newReader_def activeBreaker_def Execute_def classify_def
  isMatchedCond_def Next_def Reset_def stopBackoff_def Let_def

text \<open>
  Claim C1, as the code has it. With a retry controller whose counter holds \<open>a\<close> on
  entry, \<open>a\<close> at most the maximum \<open>N\<close>, and a delay function that, given the
  configured minimum and maximum wait, does not return the stop sentinel at the attempt
  numbers \<open>a + 1\<close> to \<open>N\<close>, a run of the attempt loop in which the pair of every
  attempt satisfies a retry condition makes exactly \<open>N - a + 1\<close> attempts: \<open>N + 1\<close>
  from a counter at zero, the first attempt and \<open>N\<close> retries. Each attempt is a call
  of the transport when no breaker is configured. The run returns the pair of the last
  attempt unchanged and leaves the counter at zero. A client with the default delay
  function, a minimum wait of one second and a maximum of two is such a client.
\<close>

theorem performRequest_exhausts:
  assumes r: "retry api = Some b"
      and le: "sint (attempts b) \<le> sint (maxAttempts b)"
      and nostop: "\<And>n x. sint (attempts b) < sint n \<Longrightarrow> sint n \<le> sint (maxAttempts b) \<Longrightarrow>
                     fst (retryFunc b n (minWaitTime b) (maxWaitTime b) x) \<noteq> stopBackoff"
      and run: "performRequest lib api req w = (res, api', w', evs)"
      and matched: "list_all (isMatchedCond (Conditions (options api))) (attemptResults evs)"
  shows "length (attemptResults evs) = nat (sint (maxAttempts b) - sint (attempts b)) + 1
       \<and> res = last (attemptResults evs)
       \<and> (activeBreaker api = None \<longrightarrow>
            length (transports evs) = nat (sint (maxAttempts b) - sint (attempts b)) + 1)
       \<and> map_option attempts (retry api') = Some 0"
proof -
  obtain req' b' where loop: "retryLoop lib api b req w = (res, req', b', w', evs)"
    and api': "api' = api\<lparr>retry := Some b'\<rparr>"
    using run r by (auto simp: performRequest_def split: prod.splits)
  have ex: "int (length (attemptResults evs)) = sint (maxAttempts b) - sint (attempts b) + 1
      \<and> res = last (attemptResults evs) \<and> attempts b' = 0"
    by (rule retryLoop_exhausts [OF nostop le loop matched])
  then have len: "length (attemptResults evs) = nat (sint (maxAttempts b) - sint (attempts b)) + 1"
    using le by linarith
  have "activeBreaker api = None \<longrightarrow>
      length (transports evs) = nat (sint (maxAttempts b) - sint (attempts b)) + 1"
    using retryLoop_transports_nobreaker [OF _ loop] len by simp
  then show ?thesis using ex len by (simp add: api')
qed

theorem performRequest_exhausts_witness:
  "list_all (isMatchedCond (Conditions (options apiDefault)))
     (attemptResults (snd (snd (snd (performRequest stubLib apiDefault getRequest world0)))))
   \<and> length (attemptResults (snd (snd (snd (performRequest stubLib apiDefault getRequest world0))))) = 4
   \<and> length (transports (snd (snd (snd (performRequest stubLib apiDefault getRequest world0))))) = 4
   \<and> fst (performRequest stubLib apiDefault getRequest world0) = (Some (okResponse 429), None)"
proof -
  let ?P = "performRequest stubLib apiDefault getRequest world0"
  let ?b = "(mkBackoff 3 0 :: nat backoff)\<lparr>retryFunc := halfJitter\<rparr>"
  have r: "retry apiDefault = Some ?b" by (simp add: apiDefault_def)
  have le: "sint (attempts ?b) \<le> sint (maxAttempts ?b)" by (simp add: mkBackoff_def)
  have nostop: "fst (retryFunc ?b n (minWaitTime ?b) (maxWaitTime ?b) x) \<noteq> stopBackoff"
    if "sint (attempts ?b) < sint n" and "sint n \<le> sint (maxAttempts ?b)" for n x
  proof -
    have "0 < sint n" and "sint n \<le> 3" using that by (simp_all add: mkBackoff_def)
    then consider "sint n = 1" | "sint n = 2" | "sint n = 3" by linarith
    then have "n = 1 \<or> n = 2 \<or> n = 3"
    proof cases
      case 1
      then have "word_of_int (sint n) = (word_of_int 1 :: int64)" by (simp only:)
      then show ?thesis by simp
    next
      case 2
      then have "word_of_int (sint n) = (word_of_int 2 :: int64)" by (simp only:)
      then show ?thesis by simp
    next
      case 3
      then have "word_of_int (sint n) = (word_of_int 3 :: int64)" by (simp only:)
      then show ?thesis by simp
    qed
    then show ?thesis
      by (auto simp: mkBackoff_def halfJitter_def halfJitter_values stopBackoff_def)
  qed
  have run: "?P = (fst ?P, fst (snd ?P), fst (snd (snd ?P)), snd (snd (snd ?P)))" by simp
  have m: "list_all (isMatchedCond (Conditions (options apiDefault)))
     (attemptResults (snd (snd (snd ?P))))"
    by (simp add: pipeline_defs fixture_defs apiDefault_def halfJitter_def halfJitter_values
        retryLoop.simps word_sle_eq)
  have nb: "activeBreaker apiDefault = None"
    by (simp add: activeBreaker_def apiDefault_def api429_def)
  have last: "last (attemptResults (snd (snd (snd ?P)))) = (Some (okResponse 429), None)"
    by (simp add: pipeline_defs fixture_defs apiDefault_def halfJitter_def halfJitter_values
        retryLoop.simps word_sle_eq)
  show ?thesis
    using performRequest_exhausts [OF r le nostop run m] m nb last
    by (simp add: mkBackoff_def)
qed

text \<open>
  Claim C1 as the specification words it has \<open>N\<close> attempts. With a maximum of one and
  a transport that always answers 429, every attempt satisfies the condition and the
  transport is called twice.
\<close>

theorem performRequest_N_attempts_counterexample:
  "list_all (isMatchedCond (Conditions (options (api429 1))))
     (attemptResults (snd (snd (snd (performRequest stubLib (api429 1) getRequest world0)))))
   \<and> length (transports (snd (snd (snd (performRequest stubLib (api429 1) getRequest world0))))) = 2"
  by (simp add: pipeline_defs fixture_defs retryLoop.simps word_sle_eq)

subsection \<open>A refusal of the breaker\<close>

lemma breakerAnswers_append [simp]:
  "breakerAnswers (xs @ ys) = breakerAnswers xs @ breakerAnswers ys"
  by (induction xs rule: breakerAnswers.induct) simp_all

text \<open>
  The events of one call of the transport, direct or through the breaker: a refusal and
  nothing else, with the refusal classified; or a call of the transport, after the
  breaker's leave when there is a breaker.
\<close>

lemma roundTrip_shape:
  assumes rt: "roundTrip api req w = (res, w1, evs)"
  shows "(\<exists>err. evs = [EvBreaker (Some err)] \<and> res = Inl (classify err))
       \<or> (\<exists>bs. evs = [EvTransport req bs] \<and> activeBreaker api = None)
       \<or> (\<exists>bs. evs = [EvBreaker None, EvTransport req bs] \<and> activeBreaker api \<noteq> None)"
proof (cases "activeBreaker api")
  case None
  then have "transport api req w = (res, w1, evs)" using rt by (simp add: roundTrip_def)
  then have "\<exists>bs. evs = [EvTransport req bs]"
    by (auto simp: transport_def Let_def split: prod.splits)
  then show ?thesis using None by simp
next
  case (Some cb)
  obtain refusal x where bf: "beforeRequest cb (ext w) = (refusal, x)" by (metis surj_pair)
  show ?thesis
  proof (cases refusal)
    case (Some err)
    then have "roundTrip api req w = (Inl (classify err), w\<lparr>ext := x\<rparr>, [EvBreaker (Some err)])"
      using \<open>activeBreaker api = Some cb\<close> bf by (simp add: roundTrip_def Execute_def)
    then show ?thesis using rt by simp
  next
    case None
    obtain r v tevs where tr: "transport api req (w\<lparr>ext := x\<rparr>) = (r, v, tevs)"
      by (metis prod_cases3)
    have tevs: "\<exists>bs. tevs = [EvTransport req bs]"
      using tr by (auto simp: transport_def Let_def split: prod.splits)
    have "Execute cb (transport api req) w
        = (r, v\<lparr>ext := afterRequest cb (\<not> isl r) (ext v)\<rparr>, EvBreaker None # tevs)"
      using bf None tr by (simp add: Execute_def)
    then have "evs = EvBreaker None # tevs"
      using rt \<open>activeBreaker api = Some cb\<close> by (cases r) (auto simp: roundTrip_def)
    then show ?thesis using tevs \<open>activeBreaker api = Some cb\<close> by auto
  qed
qed

lemma doAttempt_shape:
  assumes run: "doAttempt lib api req reuse w = (out, req1, w2, evs)"
  shows "(\<exists>err. evs = [EvBreaker (Some err), EvAttempt None (Some (classify err))]
            \<and> out = (None, Some (classify err)))
       \<or> (\<forall>err. EvBreaker (Some err) \<notin> set evs)"
    and "activeBreaker api \<noteq> None \<Longrightarrow> length (breakerAnswers evs) = 1"
proof -
  obtain sendReq w1 res tevs dump where
    rt: "roundTrip api sendReq w1 = (res, w2, tevs)"
    and dd: "debugDump lib api res = (out, dump)"
    and evs: "evs = tevs @ dump @ [EvAttempt (fst out) (snd out)]"
    by (rule doAttempt_events [OF run])
  have dump: "dump = [] \<or> (\<exists>resp. dump = [EvDump resp])"
    using dd by (auto simp: debugDump_def split: sum.splits if_splits option.splits)
  note shape = roundTrip_shape [OF rt]
  show "(\<exists>err. evs = [EvBreaker (Some err), EvAttempt None (Some (classify err))]
            \<and> out = (None, Some (classify err)))
       \<or> (\<forall>err. EvBreaker (Some err) \<notin> set evs)"
  proof (cases "\<exists>err. tevs = [EvBreaker (Some err)] \<and> res = Inl (classify err)")
    case True
    then obtain err where t: "tevs = [EvBreaker (Some err)]" and r: "res = Inl (classify err)"
      by blast
    have "out = (None, Some (classify err)) \<and> dump = []"
      using dd by (simp add: debugDump_def r)
    then show ?thesis by (simp add: evs t)
  next
    case False
    then have "\<forall>err. EvBreaker (Some err) \<notin> set tevs" using shape by auto
    then show ?thesis using dump by (auto simp: evs)
  qed
  show "length (breakerAnswers evs) = 1" if "activeBreaker api \<noteq> None"
    using shape dump that by (auto simp: evs)
qed

lemma refusal_first:
  assumes "[EvBreaker (Some e1), EvAttempt resp err1] = pre @ EvBreaker (Some err) # post"
  shows "pre = [] \<and> err = e1 \<and> post = [EvAttempt resp err1]"
  using assms by (cases pre) (auto simp: Cons_eq_append_conv)

lemma split_at_sleep:
  assumes "xs @ EvSleep d # ys = pre @ EvBreaker answer # post"
  shows "(\<exists>p1. xs = pre @ EvBreaker answer # p1 \<and> post = p1 @ EvSleep d # ys)
       \<or> (\<exists>p2. pre = xs @ EvSleep d # p2 \<and> ys = p2 @ EvBreaker answer # post)"
  using assms
proof (induction xs arbitrary: pre)
  case Nil
  then show ?case by (cases pre) auto
next
  case (Cons x xs)
  show ?case
  proof (cases pre)
    case Nil
    then show ?thesis using Cons.prems by auto
  next
    case (Cons p ps)
    then have "xs @ EvSleep d # ys = ps @ EvBreaker answer # post" and "x = p"
      using Cons.prems by simp_all
    then show ?thesis using Cons.IH [of ps] Cons by auto
  qed
qed

text \<open>
  A refusal of the breaker anywhere in a run of the loop: it opens its attempt, the
  attempt returns the classified error at once, and the loop goes on only if a condition
  matches that pair.
\<close>

lemma attempt_refusal:
  assumes att: "doAttempt lib api req reuse w = (res1, req1, w1, evs1)"
      and at: "evs1 = pre @ EvBreaker (Some err) # post"
  shows "pre = [] \<and> post = [EvAttempt None (Some (classify err))]
       \<and> res1 = (None, Some (classify err))"
proof -
  have "EvBreaker (Some err) \<in> set evs1" by (simp add: at)
  then obtain e1 where e: "evs1 = [EvBreaker (Some e1), EvAttempt None (Some (classify e1))]"
    and r: "res1 = (None, Some (classify e1))"
    using doAttempt_shape(1) [OF att] by blast
  have "pre = [] \<and> err = e1 \<and> post = [EvAttempt None (Some (classify e1))]"
    by (rule refusal_first) (use e at in simp)
  then show ?thesis using r by simp
qed

lemma retryLoop_refusal:
  assumes "retryLoop lib api b req w = (res, req', b', w', evs)"
      and "evs = pre @ EvBreaker (Some err) # post"
  shows "(pre = [] \<or> (\<exists>pre' d. pre = pre' @ [EvSleep d]))
       \<and> (\<exists>rest. post = EvAttempt None (Some (classify err)) # rest
            \<and> (\<not> isMatchedCond (Conditions (options api)) (None, Some (classify err))
                 \<longrightarrow> rest = [] \<and> res = (None, Some (classify err))))"
  using assms
proof (induction lib api b req w arbitrary: res req' b' w' evs pre post rule: retryLoop.induct)
  case (1 lib api b req w)
  obtain res1 req1 w1 evs1 where att: "doAttempt lib api req True w = (res1, req1, w1, evs1)"
    by (metis prod_cases4)
  obtain d b1 x1 where nxt: "Next b (ext w1) = (d, b1, x1)" by (metis prod_cases3)
  have single: ?case if "evs = evs1" and "res = res1"
  proof -
    have "pre = [] \<and> post = [EvAttempt None (Some (classify err))]
        \<and> res1 = (None, Some (classify err))"
      by (rule attempt_refusal [OF att]) (use that "1.prems"(2) in simp)
    then show ?thesis using that by simp
  qed
  show ?case
  proof (cases "isMatchedCond (Conditions (options api)) res1")
    case False
    have "retryLoop lib api b req w = (res1, req1, b, w1, evs1)"
      by (rule retryLoop_unmatched [OF att False])
    then have "evs = evs1" "res = res1" using "1.prems"(1) by simp_all
    then show ?thesis by (rule single)
  next
    case m: True
    show ?thesis
    proof (cases "d = stopBackoff")
      case True
      have "Next b (ext w1) = (stopBackoff, b1, x1)" using nxt True by simp
      then have "retryLoop lib api b req w = (res1, req1, snd (Reset b1), w1\<lparr>ext := x1\<rparr>, evs1)"
        by (rule retryLoop_stop [OF att m])
      then have "evs = evs1" "res = res1" using "1.prems"(1) by simp_all
      then show ?thesis by (rule single)
    next
      case dd: False
      obtain res2 req2 b2 w2 evs2 where
        rec: "retryLoop lib api b1 req1 (w1\<lparr>ext := x1\<rparr>) = (res2, req2, b2, w2, evs2)"
        by (metis prod_cases5)
      have "retryLoop lib api b req w = (res2, req2, b2, w2, evs1 @ EvSleep d # evs2)"
        by (rule retryLoop_continue [OF att m nxt dd rec])
      then have eq: "evs = evs1 @ EvSleep d # evs2" and res: "res = res2"
        using "1.prems"(1) by simp_all
      have "evs1 @ EvSleep d # evs2 = pre @ EvBreaker (Some err) # post"
        using "1.prems"(2) eq by simp
      then consider p1 where "evs1 = pre @ EvBreaker (Some err) # p1" "post = p1 @ EvSleep d # evs2"
        | p2 where "pre = evs1 @ EvSleep d # p2" "evs2 = p2 @ EvBreaker (Some err) # post"
        using split_at_sleep by blast
      then show ?thesis
      proof cases
        case 1
        have one: "pre = [] \<and> p1 = [EvAttempt None (Some (classify err))]
            \<and> res1 = (None, Some (classify err))"
          by (rule attempt_refusal [OF att 1(1)])
        then have "isMatchedCond (Conditions (options api)) (None, Some (classify err))"
          using m by simp
        then show ?thesis using one 1(2) by simp
      next
        case 2
        have ih: "(p2 = [] \<or> (\<exists>pre' d. p2 = pre' @ [EvSleep d]))
            \<and> (\<exists>rest. post = EvAttempt None (Some (classify err)) # rest
                 \<and> (\<not> isMatchedCond (Conditions (options api)) (None, Some (classify err))
                      \<longrightarrow> rest = [] \<and> res2 = (None, Some (classify err))))"
          by (rule "1.IH" [OF att [symmetric] refl refl m nxt [symmetric] refl dd rec 2(2)])
        have "\<exists>pre' d'. pre = pre' @ [EvSleep d']"
        proof (cases "p2 = []")
          case True
          then have "pre = evs1 @ [EvSleep d]" using 2(1) by simp
          then show ?thesis by blast
        next
          case False
          then obtain q d' where "p2 = q @ [EvSleep d']" using ih by blast
          then have "pre = (evs1 @ EvSleep d # q) @ [EvSleep d']" using 2(1) by simp
          then show ?thesis by blast
        qed
        then show ?thesis using ih res by simp
      qed
    qed
  qed
qed

lemma retryLoop_answers:
  assumes "activeBreaker api \<noteq> None"
      and "retryLoop lib api b req w = (res, req', b', w', evs)"
  shows "length (breakerAnswers evs) = length (attemptResults evs)"
  using assms
proof (induction lib api b req w arbitrary: res req' b' w' evs rule: retryLoop.induct)
  case (1 lib api b req w)
  obtain res1 req1 w1 evs1 where att: "doAttempt lib api req True w = (res1, req1, w1, evs1)"
    by (metis prod_cases4)
  have t1: "length (breakerAnswers evs1) = 1"
    by (rule doAttempt_shape(2) [OF att "1.prems"(1)])
  have a1: "attemptResults evs1 = [res1]" by (rule doAttempt_attemptResults [OF att])
  obtain d b1 x1 where nxt: "Next b (ext w1) = (d, b1, x1)" by (metis prod_cases3)
  show ?case
  proof (cases "isMatchedCond (Conditions (options api)) res1")
    case False
    have "retryLoop lib api b req w = (res1, req1, b, w1, evs1)"
      by (rule retryLoop_unmatched [OF att False])
    then have "evs = evs1" using "1.prems"(2) by simp
    then show ?thesis using t1 a1 by simp
  next
    case m: True
    show ?thesis
    proof (cases "d = stopBackoff")
      case True
      have "Next b (ext w1) = (stopBackoff, b1, x1)" using nxt True by simp
      then have "retryLoop lib api b req w = (res1, req1, snd (Reset b1), w1\<lparr>ext := x1\<rparr>, evs1)"
        by (rule retryLoop_stop [OF att m])
      then have "evs = evs1" using "1.prems"(2) by simp
      then show ?thesis using t1 a1 by simp
    next
      case dd: False
      obtain res2 req2 b2 w2 evs2 where
        rec: "retryLoop lib api b1 req1 (w1\<lparr>ext := x1\<rparr>) = (res2, req2, b2, w2, evs2)"
        by (metis prod_cases5)
      have "retryLoop lib api b req w = (res2, req2, b2, w2, evs1 @ EvSleep d # evs2)"
        by (rule retryLoop_continue [OF att m nxt dd rec])
      then have eq: "evs = evs1 @ EvSleep d # evs2" using "1.prems"(2) by simp
      have "length (breakerAnswers evs2) = length (attemptResults evs2)"
        by (rule "1.IH" [OF att [symmetric] refl refl m nxt [symmetric] refl dd "1.prems"(1) rec])
      then show ?thesis using t1 a1 by (simp add: eq)
    qed
  qed
qed

text \<open>
  Claim C6. Wherever in a run of \<open>performRequest\<close> the breaker refuses with
  \<open>ErrOpenState\<close> or \<open>ErrTooManyRequests\<close>, at the first attempt or at a later
  one, the refusal opens its attempt (nothing was handed to the transport in it) and the
  very next event is the return of that attempt, with no response and the error wrapped
  with the message \<open>circuit-breaker has worked\<close>; \<open>errors.Is\<close> still finds the
  breaker's sentinel in it, which is how a caller tells it from an error of the transport.
  If no retry condition matches the pair, the run ends there and returns it. With a
  breaker configured every attempt asks the breaker, once.
\<close>

theorem breaker_open_classified:
  assumes run: "performRequest lib api req w = (res, api', w', evs)"
      and at: "evs = pre @ EvBreaker (Some err) # post"
      and sentinel: "err = ErrOpenState \<or> err = ErrTooManyRequests"
  shows "isBreakerOpenError (Wrap err ''circuit-breaker has worked'')
       \<and> (pre = [] \<or> (\<exists>pre' d. pre = pre' @ [EvSleep d]))
       \<and> (\<exists>rest. post = EvAttempt None (Some (Wrap err ''circuit-breaker has worked'')) # rest
            \<and> (\<not> isMatchedCond (Conditions (options api))
                     (None, Some (Wrap err ''circuit-breaker has worked''))
                 \<longrightarrow> rest = [] \<and> res = (None, Some (Wrap err ''circuit-breaker has worked''))))
       \<and> (activeBreaker api \<noteq> None \<longrightarrow> length (breakerAnswers evs) = length (attemptResults evs))"
proof -
  have cl: "classify err = Wrap err ''circuit-breaker has worked''"
    using sentinel by (auto simp: classify_def)
  have is_open: "isBreakerOpenError (Wrap err ''circuit-breaker has worked'')"
    using sentinel by (auto simp: isBreakerOpenError_def)
  show ?thesis
  proof (cases "retry api")
    case None
    obtain out req1 w2 evs2 where att: "doAttempt lib api req False w = (out, req1, w2, evs2)"
      by (metis prod_cases4)
    have eq: "res = out" "evs = evs2"
      using run None att by (simp_all add: performRequest_def)
    have "pre = [] \<and> post = [EvAttempt None (Some (classify err))]
        \<and> out = (None, Some (classify err))"
      by (rule attempt_refusal [OF att]) (use at eq in simp)
    moreover have "length (breakerAnswers evs) = length (attemptResults evs)"
      if "activeBreaker api \<noteq> None"
      using doAttempt_shape(2) [OF att that] doAttempt_attemptResults [OF att] eq by simp
    ultimately show ?thesis using is_open eq by (simp add: cl)
  next
    case (Some b)
    obtain req' b' where loop: "retryLoop lib api b req w = (res, req', b', w', evs)"
      using run Some by (auto simp: performRequest_def split: prod.splits)
    have "length (breakerAnswers evs) = length (attemptResults evs)"
      if "activeBreaker api \<noteq> None"
      by (rule retryLoop_answers [OF that loop])
    then show ?thesis using retryLoop_refusal [OF loop at] is_open by (simp add: cl)
  qed
qed

theorem breaker_open_classified_witness:
  "snd (snd (snd (performRequest stubLib apiTripping getRequest world0)))
     = [EvBreaker None, EvTransport getRequest [], EvAttempt (Some (okResponse 429)) None,
        EvSleep 1000000000]
       @ EvBreaker (Some ErrOpenState)
         # [EvAttempt None (Some (Wrap ErrOpenState ''circuit-breaker has worked''))]
   \<and> fst (performRequest stubLib apiTripping getRequest world0)
       = (None, Some (Wrap ErrOpenState ''circuit-breaker has worked''))
   \<and> isBreakerOpenError (Wrap ErrOpenState ''circuit-breaker has worked'')
   \<and> activeBreaker apiTripping \<noteq> None"
proof -
  let ?P = "performRequest stubLib apiTripping getRequest world0"
  have run: "?P = (fst ?P, fst (snd ?P), fst (snd (snd ?P)), snd (snd (snd ?P)))" by simp
  have at: "snd (snd (snd ?P))
      = [EvBreaker None, EvTransport getRequest [], EvAttempt (Some (okResponse 429)) None,
         EvSleep 1000000000]
        @ EvBreaker (Some ErrOpenState)
          # [EvAttempt None (Some (Wrap ErrOpenState ''circuit-breaker has worked''))]"
    by (simp add: pipeline_defs fixture_defs apiTripping_def trippingBreaker_def
        retryLoop.simps word_sle_eq)
  have nomatch: "\<not> isMatchedCond (Conditions (options apiTripping))
      (None, Some (Wrap ErrOpenState ''circuit-breaker has worked''))"
    by (simp add: isMatchedCond_def apiTripping_def api429_def cond429_def)
  have ab: "activeBreaker apiTripping \<noteq> None"
    by (simp add: activeBreaker_def apiTripping_def api429_def)
  show ?thesis
    using breaker_open_classified [OF run at] nomatch at ab by simp
qed

subsection \<open>The body of a retried request\<close>

lemma sentBodies_append [simp]: "sentBodies (xs @ ys) = sentBodies xs @ sentBodies ys"
  by (simp add: sentBodies_def)

lemma sentBodies_simps [simp]:
  "sentBodies [] = []"
  "sentBodies (EvTransport req bs # evs) = bs # sentBodies evs"
  "sentBodies (EvAttempt resp err # evs) = sentBodies evs"
  "sentBodies (EvSleep d # evs) = sentBodies evs"
  "sentBodies (EvDump r # evs) = sentBodies evs"
  "sentBodies (EvBreaker answer # evs) = sentBodies evs"
  by (simp_all add: sentBodies_def)

lemma rehydrate_reuse:
  assumes "Body req = Some a"
  shows "rehydrate True req w =
           (req\<lparr>Body := Some (nextReader w)\<rparr>,
            req\<lparr>Body := Some (nextReader w + 1)\<rparr>,
            w\<lparr>readers := (readers w)(a := [], nextReader w := readers w a,
                                     nextReader w + 1 := readers w a),
              nextReader := nextReader w + 2\<rparr>)"
  using assms by (simp add: rehydrate_def readAll_def newReader_def Let_def)

lemma transport_body:
  assumes "Body req = Some a" and "transport api req w = (res, w1, evs)"
  shows "sentBodies evs = [readers w a]"
    and "\<And>n. n \<noteq> a \<Longrightarrow> readers w1 n = readers w n"
  using assms by (auto simp: transport_def readAll_def Let_def split: prod.splits)

lemma roundTrip_body:
  assumes b: "Body req = Some a" and rt: "roundTrip api req w = (res, w1, evs)"
  shows "list_all (\<lambda>bs. bs = readers w a) (sentBodies evs)"
    and "\<And>n. n \<noteq> a \<Longrightarrow> readers w1 n = readers w n"
proof -
  have both: "list_all (\<lambda>bs. bs = readers w a) (sentBodies evs)
      \<and> (\<forall>n. n \<noteq> a \<longrightarrow> readers w1 n = readers w n)"
  proof (cases "activeBreaker api")
    case None
    then have tr: "transport api req w = (res, w1, evs)" using rt by (simp add: roundTrip_def)
    show ?thesis using transport_body [OF b tr] by simp
  next
    case (Some cb)
    obtain refusal x where bf: "beforeRequest cb (ext w) = (refusal, x)" by (metis surj_pair)
    show ?thesis
    proof (cases refusal)
      case (Some err)
      then have "roundTrip api req w = (Inl (classify err), w\<lparr>ext := x\<rparr>, [EvBreaker (Some err)])"
        using \<open>activeBreaker api = Some cb\<close> bf by (simp add: roundTrip_def Execute_def)
      then show ?thesis using rt by auto
    next
      case None
      obtain r v tevs where tr: "transport api req (w\<lparr>ext := x\<rparr>) = (r, v, tevs)"
        by (metis prod_cases3)
      have ex: "Execute cb (transport api req) w
          = (r, v\<lparr>ext := afterRequest cb (\<not> isl r) (ext v)\<rparr>, EvBreaker None # tevs)"
        using bf None tr by (simp add: Execute_def)
      have "evs = EvBreaker None # tevs \<and> w1 = v\<lparr>ext := afterRequest cb (\<not> isl r) (ext v)\<rparr>"
        using rt \<open>activeBreaker api = Some cb\<close> ex by (cases r) (auto simp: roundTrip_def)
      then show ?thesis using transport_body [OF b tr] by simp
    qed
  qed
  show "list_all (\<lambda>bs. bs = readers w a) (sentBodies evs)" using both by simp
  show "\<And>n. n \<noteq> a \<Longrightarrow> readers w1 n = readers w n" using both by simp
qed

lemma doAttempt_body:
  assumes b: "Body req = Some a"
      and run: "doAttempt lib api req True w = (out, req1, w2, evs)"
  shows "list_all (\<lambda>bs. bs = readers w a) (sentBodies evs)"
    and "Body req1 = Some (nextReader w)"
    and "readers w2 (nextReader w) = readers w a"
proof -
  obtain sendReq w1 res tevs dump where
    pre: "rehydrate True req w = (req1, sendReq, w1)"
    and rt: "roundTrip api sendReq w1 = (res, w2, tevs)"
    and dd: "debugDump lib api res = (out, dump)"
    and evs: "evs = tevs @ dump @ [EvAttempt (fst out) (snd out)]"
    by (rule doAttempt_events [OF run])
  have req1: "req1 = req\<lparr>Body := Some (nextReader w)\<rparr>"
    and send: "sendReq = req\<lparr>Body := Some (nextReader w + 1)\<rparr>"
    and w1: "w1 = w\<lparr>readers := (readers w)(a := [], nextReader w := readers w a,
                                            nextReader w + 1 := readers w a),
                      nextReader := nextReader w + 2\<rparr>"
    using pre rehydrate_reuse [OF b, of w] by simp_all
  have sb: "Body sendReq = Some (nextReader w + 1)" by (simp add: send)
  have r1: "readers w1 (nextReader w + 1) = readers w a" by (simp add: w1)
  have "sentBodies dump = []"
    using dd by (auto simp: debugDump_def split: sum.splits if_splits option.splits)
  then show "list_all (\<lambda>bs. bs = readers w a) (sentBodies evs)"
    using roundTrip_body(1) [OF sb rt, unfolded r1] by (simp add: evs)
  show "Body req1 = Some (nextReader w)" by (simp add: req1)
  have "readers w2 (nextReader w) = readers w1 (nextReader w)"
    using roundTrip_body(2) [OF sb rt, of "nextReader w"] by simp
  then show "readers w2 (nextReader w) = readers w a" by (simp add: w1)
qed

lemma retryLoop_bodies:
  assumes "Body req = Some a"
      and "retryLoop lib api b req w = (res, req', b', w', evs)"
  shows "list_all (\<lambda>bs. bs = readers w a) (sentBodies evs)"
  using assms
proof (induction lib api b req w arbitrary: a res req' b' w' evs rule: retryLoop.induct)
  case (1 lib api b req w)
  obtain res1 req1 w1 evs1 where att: "doAttempt lib api req True w = (res1, req1, w1, evs1)"
    by (metis prod_cases4)
  have s1: "list_all (\<lambda>bs. bs = readers w a) (sentBodies evs1)"
    and b1: "Body req1 = Some (nextReader w)"
    and r1: "readers w1 (nextReader w) = readers w a"
    using doAttempt_body [OF "1.prems"(1) att] by simp_all
  obtain d bk x1 where nxt: "Next b (ext w1) = (d, bk, x1)" by (metis prod_cases3)
  show ?case
  proof (cases "isMatchedCond (Conditions (options api)) res1")
    case False
    have "retryLoop lib api b req w = (res1, req1, b, w1, evs1)"
      by (rule retryLoop_unmatched [OF att False])
    then have "evs = evs1" using "1.prems"(2) by simp
    then show ?thesis using s1 by simp
  next
    case m: True
    show ?thesis
    proof (cases "d = stopBackoff")
      case True
      have "Next b (ext w1) = (stopBackoff, bk, x1)" using nxt True by simp
      then have "retryLoop lib api b req w = (res1, req1, snd (Reset bk), w1\<lparr>ext := x1\<rparr>, evs1)"
        by (rule retryLoop_stop [OF att m])
      then have "evs = evs1" using "1.prems"(2) by simp
      then show ?thesis using s1 by simp
    next
      case dd: False
      obtain res2 req2 b2 w2 evs2 where
        rec: "retryLoop lib api bk req1 (w1\<lparr>ext := x1\<rparr>) = (res2, req2, b2, w2, evs2)"
        by (metis prod_cases5)
      have "retryLoop lib api b req w = (res2, req2, b2, w2, evs1 @ EvSleep d # evs2)"
        by (rule retryLoop_continue [OF att m nxt dd rec])
      then have eq: "evs = evs1 @ EvSleep d # evs2" using "1.prems"(2) by simp
      have "list_all (\<lambda>bs. bs = readers (w1\<lparr>ext := x1\<rparr>) (nextReader w)) (sentBodies evs2)"
        by (rule "1.IH" [OF att [symmetric] refl refl m nxt [symmetric] refl dd b1 rec])
      then show ?thesis using s1 r1 by (simp add: eq)
    qed
  qed
qed

text \<open>
  Claim C7. When a retry controller is configured and the request carries a body, every
  call of the transport made for the logical call is handed the same bytes: those that
  the body held, unread, when \<open>performRequest\<close> was entered. Each attempt drains the
  reader it finds in the request into a new buffer, leaves that buffer in the request for
  the next attempt and sends a clone whose body is a reader of its own over the bytes.
\<close>

theorem retried_bodies_identical:
  assumes r: "retry api = Some b"
      and body: "Body req = Some a"
      and run: "performRequest lib api req w = (res, api', w', evs)"
  shows "list_all (\<lambda>bs. bs = readers w a) (sentBodies evs)"
proof -
  obtain req' b' where loop: "retryLoop lib api b req w = (res, req', b', w', evs)"
    using run r by (auto simp: performRequest_def split: prod.splits)
  show ?thesis by (rule retryLoop_bodies [OF body loop])
qed

theorem retried_bodies_identical_witness:
  "sentBodies (snd (snd (snd (performRequest stubLib (api429 3) postRequest world1))))
     = [[1, 2, 3], [1, 2, 3], [1, 2, 3], [1, 2, 3]]"
proof -
  let ?P = "performRequest stubLib (api429 3) postRequest world1"
  have r: "retry (api429 3) = Some (mkBackoff 3 0)" by (simp add: api429_def)
  have body: "Body postRequest = Some 0" by (simp add: postRequest_def)
  have run: "?P = (fst ?P, fst (snd ?P), fst (snd (snd ?P)), snd (snd (snd ?P)))" by simp
  have len: "length (sentBodies (snd (snd (snd ?P)))) = 4"
    by (simp add: pipeline_defs fixture_defs postRequest_def world1_def retryLoop.simps
        word_sle_eq)
  have all: "list_all (\<lambda>bs. bs = readers world1 0) (sentBodies (snd (snd (snd ?P))))"
    by (rule retried_bodies_identical [OF r body run])
  obtain x1 x2 x3 x4 where xs: "sentBodies (snd (snd (snd ?P))) = [x1, x2, x3, x4]"
    using len by (auto simp: length_Suc_conv numeral_eq_Suc)
  have rd: "readers world1 0 = [1, 2, 3]" by (simp add: world1_def)
  show ?thesis using all [unfolded rd] by (simp add: xs)
qed

section \<open>Properties of \<open>makeRequest\<close> and \<open>do\<close>\<close>



lemma setPayload_options [simp]:
  "setPayload (rb\<lparr>requestOptions := opts\<rparr>) enc httpReq w = setPayload rb enc httpReq w"
  by (simp add: setPayload_def split: option.splits)








subsection \<open>The path of the outgoing request\<close>







subsection \<open>Admission before anything else\<close>

lemma do_refused:
  assumes "Wait lib (limiter (client_api c)) w = (Some err, l1, w1)"
  shows "do lib rr c rb decode enc w
           = ((None, None, Some err), c\<lparr>client_api := (client_api c)\<lparr>limiter := l1\<rparr>\<rparr>, w1,
              [EvRateWait])"
  using assms by (simp add: do_def)

lemma do_events_head:
  "\<exists>rest. snd (snd (snd (do lib rr c rb decode enc w))) = EvRateWait # rest"
proof (cases "Wait lib (limiter (client_api c)) w")
  case (fields werr l1 w1)
  show ?thesis
  proof (cases werr)
    case (Some err)
    then show ?thesis using fields by (simp add: do_def)
  next
    case None
    then show ?thesis
      using fields
      by (auto simp: do_def Let_def split: prod.splits sum.splits option.splits)
  qed
qed

text \<open>
  Claim C9. The first event of every run of \<open>do\<close> is the limiter's wait. If the wait
  returns an error, \<open>do\<close> returns that error with no response and no payload, the
  wait is the only event, and the world is as the wait left it: no request is built, no
  attempt is made, no response is handled. A run in which the transport is called is one
  whose wait returned no error.
\<close>

theorem do_admission_first:
  assumes run: "do lib rr c rb decode enc w = (out, c', w', evs)"
  shows "evs = EvRateWait # tl evs
       \<and> (fst (Wait lib (limiter (client_api c)) w) \<noteq> None \<longrightarrow>
            out = (None, None, fst (Wait lib (limiter (client_api c)) w))
            \<and> evs = [EvRateWait]
            \<and> c' = c\<lparr>client_api :=
                       (client_api c)\<lparr>limiter := fst (snd (Wait lib (limiter (client_api c)) w))\<rparr>\<rparr>
            \<and> w' = snd (snd (Wait lib (limiter (client_api c)) w)))
       \<and> (transports evs \<noteq> [] \<longrightarrow> fst (Wait lib (limiter (client_api c)) w) = None)"
proof -
  obtain werr l1 w1 where wt: "Wait lib (limiter (client_api c)) w = (werr, l1, w1)"
    by (metis prod_cases3)
  obtain rest where "evs = EvRateWait # rest"
    using do_events_head [of lib rr c rb decode enc w] run by auto
  then have hd: "evs = EvRateWait # tl evs" by simp
  have refused: "out = (None, None, Some err) \<and> evs = [EvRateWait]
      \<and> c' = c\<lparr>client_api := (client_api c)\<lparr>limiter := l1\<rparr>\<rparr> \<and> w' = w1"
    if "werr = Some err" for err
    using do_refused [of lib c w err l1 w1 rr rb decode enc] wt that run by simp
  have admitted: "werr = None" if "transports evs \<noteq> []"
  proof (rule ccontr)
    assume "werr \<noteq> None"
    then obtain err where "werr = Some err" by auto
    then have "evs = [EvRateWait]" using refused by simp
    then show False using that by simp
  qed
  show ?thesis using hd refused admitted by (auto simp: wt)
qed

theorem do_admission_first_witness:
  "do cancelledLib readBody plainClient formBuilder True noCodec world0
     = ((None, None, Some Canceled), plainClient, world0, [EvRateWait])
   \<and> transports (snd (snd (snd (do stubLib readBody plainClient formBuilder True noCodec world0))))
       \<noteq> []
   \<and> fst (Wait stubLib (limiter (client_api plainClient)) world0) = None"
proof -
  let ?D = "do cancelledLib readBody plainClient formBuilder True noCodec world0"
  let ?E = "do stubLib readBody plainClient formBuilder True noCodec world0"
  have w: "Wait cancelledLib (limiter (client_api plainClient)) world0
      = (Some Canceled, limiter (client_api plainClient), world0)"
    by (simp add: Wait_def cancelledLib_def stubLib_def plainClient_def api429_def world0_def
        resetIfDue_def tryReset_def newAdaptiveBucketLimiter_def zeroTime_def)
  have same: "plainClient\<lparr>client_api := (client_api plainClient)
      \<lparr>limiter := limiter (client_api plainClient)\<rparr>\<rparr> = plainClient"
    by simp
  have r1: "?D = (fst ?D, fst (snd ?D), fst (snd (snd ?D)), snd (snd (snd ?D)))" by simp
  have r2: "?E = (fst ?E, fst (snd ?E), fst (snd (snd ?E)), snd (snd (snd ?E)))" by simp
  have t: "transports (snd (snd (snd ?E))) \<noteq> []"
    by (simp add: do_def Wait_def makeRequest_def buildRequestURL_def setPayload_def
        setDefaultHeaders_def WithRequestForm_def formBuilder_def plainClient_def noCodec_def
        readBody_def handleResponse_def resetIfDue_def tryReset_def newAdaptiveBucketLimiter_def
        zeroTime_def pipeline_defs fixture_defs retryLoop.simps word_sle_eq)
  show ?thesis
    using do_admission_first [OF r1] do_admission_first [OF r2] w t same
    by (cases ?D) auto
qed

end
